theory Spec2Isabelle
  imports Main "HOL-Library.Monad_Syntax" "HOL-Library.Multiset"
begin

section \<open>Device arrays and kernel launches\<close>

text \<open>
  A Warp array is a list. Integer indices are \<open>int\<close> (the ranges that occur stay far
  below 32 bits). A device read or write outside the array has no defined result; the
  model returns \<open>None\<close> for it, so that every theorem that states \<open>Some\<close> also states
  that all accesses were in range.
\<close>

definition rd :: "'a list \<Rightarrow> int \<Rightarrow> 'a option" where
  "rd xs i = (if 0 \<le> i \<and> i < int (length xs) then Some (xs ! nat i) else None)"

definition wr :: "'a list \<Rightarrow> int \<Rightarrow> 'a \<Rightarrow> 'a list option" where
  "wr xs i v = (if 0 \<le> i \<and> i < int (length xs) then Some (xs[nat i := v]) else None)"

text \<open>
  \<open>wp.launch(kernel, dim = n)\<close> runs the kernel body once for every thread id in
  \<open>[0, n)\<close>. \<open>run_threads\<close> runs whole threads one after the other in a given order;
  \<open>launch\<close> uses the order of the thread ids.
\<close>

fun run_threads :: "(int \<Rightarrow> 's \<Rightarrow> 's option) \<Rightarrow> int list \<Rightarrow> 's \<Rightarrow> 's option" where
  "run_threads k [] s = Some s"
| "run_threads k (t # ts) s = (case k t s of None \<Rightarrow> None | Some s' \<Rightarrow> run_threads k ts s')"

definition launch :: "(int \<Rightarrow> 's \<Rightarrow> 's option) \<Rightarrow> nat \<Rightarrow> 's \<Rightarrow> 's option" where
  "launch k dim s = run_threads k (map int [0..<dim]) s"

section \<open>Axis-aligned bounding boxes (aabb.py)\<close>

text \<open>
  Coordinates are elements of a linear order: \<open>wp.min\<close> and \<open>wp.max\<close> on floats that
  are not NaN select one of their arguments and round nothing.
\<close>

type_synonym 'a vec3 = "'a \<times> 'a \<times> 'a"

definition vec3_min :: "'a::linorder vec3 \<Rightarrow> 'a vec3 \<Rightarrow> 'a vec3" where
  "vec3_min u v = (case u of (ux, uy, uz) \<Rightarrow> case v of (vx, vy, vz) \<Rightarrow>
     (min ux vx, min uy vy, min uz vz))"

definition vec3_max :: "'a::linorder vec3 \<Rightarrow> 'a vec3 \<Rightarrow> 'a vec3" where
  "vec3_max u v = (case u of (ux, uy, uz) \<Rightarrow> case v of (vx, vy, vz) \<Rightarrow>
     (max ux vx, max uy vy, max uz vz))"

record 'a Aabb =
  lower :: "'a vec3"
  upper :: "'a vec3"

definition aabb_merge :: "'a::linorder Aabb \<Rightarrow> 'a Aabb \<Rightarrow> 'a Aabb" where
  "aabb_merge aabb_0 aabb_1 =
     \<lparr>lower = vec3_min (lower aabb_0) (lower aabb_1),
      upper = vec3_max (upper aabb_0) (upper aabb_1)\<rparr>"

section \<open>Linearised nodes (kernels.py, BvhNode and compact_bvh_nodes_kernel)\<close>

record 'a BvhNode =
  aabb :: "'a Aabb"
  left_or_leaf :: int
  escape_index :: int

definition compact_bvh_nodes_kernel ::
  "int \<Rightarrow> 'a Aabb list \<Rightarrow> int list \<Rightarrow> int list \<Rightarrow> int list \<Rightarrow>
   int \<Rightarrow> 'a BvhNode list \<Rightarrow> 'a BvhNode list option" where
  "compact_bvh_nodes_kernel num_leaves aabbs left_nodes leaf_indices escape_indicess tid bvh_nodes =
     do {
       a \<leftarrow> rd aabbs tid;
       e \<leftarrow> rd escape_indicess tid;
       l \<leftarrow> (if tid < num_leaves - 1 then rd left_nodes tid
            else do { li \<leftarrow> rd leaf_indices (tid - (num_leaves - 1)); Some (- li - 1) });
       wr bvh_nodes tid \<lparr>aabb = a, left_or_leaf = l, escape_index = e\<rparr>
     }"

section \<open>Escape indices (kernels.py, assign_escape_indices_kernel)\<close>

text \<open>
  The thread first stores at \<open>current_index\<close> and then walks down the right children
  while the current node is internal. The walk is a loop that a cyclic \<open>right_nodes\<close>
  keeps running forever: \<open>None\<close> stands for no result (no return, or an access out of
  range).
\<close>

partial_function (option) escape_walk ::
  "int \<Rightarrow> int list \<Rightarrow> int \<Rightarrow> int \<Rightarrow> int list \<Rightarrow> int list option" where
  "escape_walk num_internal_nodes right_nodes escape_idx current_index escape_indices =
     (if current_index < num_internal_nodes then
        do {
          c \<leftarrow> rd right_nodes current_index;
          es \<leftarrow> wr escape_indices c escape_idx;
          escape_walk num_internal_nodes right_nodes escape_idx c es
        }
      else Some escape_indices)"

declare escape_walk.simps [code]

definition assign_escape_indices_kernel ::
  "int \<Rightarrow> int list \<Rightarrow> int list \<Rightarrow> int \<Rightarrow> int list \<Rightarrow> int list option" where
  "assign_escape_indices_kernel num_internal_nodes left_nodes right_nodes tid escape_indices =
     do {
       (current_index, escape_idx) \<leftarrow>
         (if tid < num_internal_nodes then
            do { c \<leftarrow> rd left_nodes tid; e \<leftarrow> rd right_nodes tid; Some (c, e) }
          else Some (0, - 1));
       es \<leftarrow> wr escape_indices current_index escape_idx;
       escape_walk num_internal_nodes right_nodes escape_idx current_index es
     }"

section \<open>Tree topologies\<close>

text \<open>
  The arrays \<open>left_nodes\<close> and \<open>right_nodes\<close> describe a binary tree over the node
  indices: internal nodes below \<open>num_internal_nodes\<close>, leaves from there on. A topology is
  valid for \<open>N\<close> leaves when the arrays encode a tree with root 0 that holds every index of
  \<open>[0, 2N - 1)\<close> exactly once.
\<close>

datatype bvh_tree = Lf int | Nd int bvh_tree bvh_tree

fun root :: "bvh_tree \<Rightarrow> int" where
  "root (Lf k) = k"
| "root (Nd i l r) = i"

fun preorder :: "bvh_tree \<Rightarrow> int list" where
  "preorder (Lf k) = [k]"
| "preorder (Nd i l r) = i # preorder l @ preorder r"

fun subtrees :: "bvh_tree \<Rightarrow> bvh_tree list" where
  "subtrees (Lf k) = [Lf k]"
| "subtrees (Nd i l r) = Nd i l r # subtrees l @ subtrees r"

fun rspine :: "bvh_tree \<Rightarrow> int list" where
  "rspine (Lf k) = [k]"
| "rspine (Nd i l r) = i # rspine r"

fun encodes :: "int \<Rightarrow> int list \<Rightarrow> int list \<Rightarrow> bvh_tree \<Rightarrow> bool" where
  "encodes n L R (Lf k) = (n \<le> k)"
| "encodes n L R (Nd i l r) =
     (0 \<le> i \<and> i < n \<and> rd L i = Some (root l) \<and> rd R i = Some (root r) \<and>
      encodes n L R l \<and> encodes n L R r)"

definition valid_topology :: "nat \<Rightarrow> int list \<Rightarrow> int list \<Rightarrow> bvh_tree \<Rightarrow> bool" where
  "valid_topology N L R t =
     (1 \<le> N \<and> length L = N - 1 \<and> length R = N - 1 \<and> root t = 0 \<and>
      encodes (int N - 1) L R t \<and> distinct (preorder t) \<and>
      length (preorder t) = 2 * N - 1 \<and>
      list_all (\<lambda>v. 0 \<le> v \<and> v < 2 * int N - 1) (preorder t))"

text \<open>
  The stackless depth-first walk a traversal performs on the result (no kernel of the
  repository; the specification's reading of the escape links): at an internal node go to
  the left child, at a leaf follow the escape link, stop at \<open>-1\<close>.
\<close>

partial_function (option) dfs_walk ::
  "int \<Rightarrow> int list \<Rightarrow> int list \<Rightarrow> int \<Rightarrow> int list \<Rightarrow> int list option" where
  "dfs_walk n L E cur visited =
     (if cur = - 1 then Some (rev visited)
      else do {
        nxt \<leftarrow> (if cur < n then rd L cur else rd E cur);
        dfs_walk n L E nxt (cur # visited)
      })"

declare dfs_walk.simps [code]


text \<open>
  The escape links as the tree defines them: \<open>escs t e\<close> lists, for every node of \<open>t\<close>,
  the node that follows its subtree, where \<open>e\<close> follows \<open>t\<close> itself. \<open>apply_writes\<close>
  performs a list of stores; \<open>thread_writes\<close> is the list of stores of one thread.
\<close>

fun escs :: "bvh_tree \<Rightarrow> int \<Rightarrow> (int \<times> int) list" where
  "escs (Lf k) e = [(k, e)]"
| "escs (Nd i l r) e = (i, e) # escs l (root r) @ escs r e"

definition apply_writes :: "(int \<times> int) list \<Rightarrow> int list \<Rightarrow> int list" where
  "apply_writes ps E = fold (\<lambda>(c, e) E. E[nat c := e]) ps E"

definition pairs_of :: "bvh_tree \<Rightarrow> int \<Rightarrow> (int \<times> int) list" where
  "pairs_of t i = (case find (\<lambda>s. root s = i) (subtrees t) of
      Some (Nd j l r) \<Rightarrow> map (\<lambda>c. (c, root r)) (rspine l) | _ \<Rightarrow> [])"

definition thread_writes :: "nat \<Rightarrow> bvh_tree \<Rightarrow> int \<Rightarrow> (int \<times> int) list" where
  "thread_writes N t tid =
     (if tid < int N - 1 then pairs_of t tid else map (\<lambda>c. (c, - 1)) (rspine t))"

section \<open>Bottom-up boxes (kernels.py, assign_bounding_boxes_kernel)\<close>

text \<open>
  The threads of this kernel synchronise through \<open>wp.atomic_add\<close> on the flags, so the
  kernel is modelled as an interleaving of atomic actions. A thread is its program point and
  its local variables; it takes one action at a time: \<open>Start\<close> (store the leaf box),
  \<open>Arrive\<close> (loop test, fence and atomic increment of the parent's flag), \<open>Merge\<close> (read the
  sibling's box, store the parent's box, move up). A schedule is the list of the thread ids
  in the order of their actions; the launch is over when every thread has returned. The memory
  also keeps two traces, of the atomic increments and of the box stores, as (node, thread)
  pairs in the order they happen.
\<close>

datatype pc = Start | Arrive | Merge | Returned

record 'a bb_thread =
  t_pc :: pc
  t_current :: int
  t_parent :: int
  t_aabb :: "'a Aabb"

record 'a bb_mem =
  m_flags :: "int list"
  m_boxes :: "'a Aabb list"
  m_arrivals :: "(int \<times> int) list"
  m_stores :: "(int \<times> int) list"

definition assign_bounding_boxes_step ::
  "int \<Rightarrow> int list \<Rightarrow> int list \<Rightarrow> int list \<Rightarrow> 'a::{linorder,zero} vec3 list \<Rightarrow> 'a vec3 list \<Rightarrow> int list \<Rightarrow>
   int \<Rightarrow> 'a bb_thread \<Rightarrow> 'a bb_mem \<Rightarrow> ('a bb_thread \<times> 'a bb_mem) option" where
  "assign_bounding_boxes_step num_leaves left_nodes right_nodes parent_nodes lower_bounds
       upper_bounds leaf_indcies tid th m =
     (case t_pc th of
        Start \<Rightarrow> do {
          leaf_index \<leftarrow> rd leaf_indcies tid;
          let current_index = num_leaves - 1 + tid;
          parent_index \<leftarrow> rd parent_nodes current_index;
          lo \<leftarrow> rd lower_bounds leaf_index;
          up \<leftarrow> rd upper_bounds leaf_index;
          let a = \<lparr>lower = lo, upper = up\<rparr>;
          bb \<leftarrow> wr (m_boxes m) current_index a;
          Some (\<lparr>t_pc = Arrive, t_current = current_index, t_parent = parent_index, t_aabb = a\<rparr>,
                m\<lparr>m_boxes := bb, m_stores := m_stores m @ [(current_index, tid)]\<rparr>)
        }
      | Arrive \<Rightarrow>
          if t_parent th = - 1 then Some (th\<lparr>t_pc := Returned\<rparr>, m)
          else do {
            old \<leftarrow> rd (m_flags m) (t_parent th);
            fl \<leftarrow> wr (m_flags m) (t_parent th) (old + 1);
            Some (th\<lparr>t_pc := (if old = 1 then Merge else Returned)\<rparr>,
                  m\<lparr>m_flags := fl, m_arrivals := m_arrivals m @ [(t_parent th, tid)]\<rparr>)
          }
      | Merge \<Rightarrow> do {
          right_child \<leftarrow> rd right_nodes (t_parent th);
          left_child \<leftarrow> rd left_nodes (t_parent th);
          a \<leftarrow> (if t_current th = left_child then
                  do { b \<leftarrow> rd (m_boxes m) right_child; Some (aabb_merge (t_aabb th) b) }
                else if t_current th = right_child then
                  do { b \<leftarrow> rd (m_boxes m) left_child; Some (aabb_merge (t_aabb th) b) }
                else Some (t_aabb th));
          let current_index = t_parent th;
          parent_index \<leftarrow> rd parent_nodes (t_parent th);
          bb \<leftarrow> wr (m_boxes m) current_index a;
          Some (\<lparr>t_pc = Arrive, t_current = current_index, t_parent = parent_index, t_aabb = a\<rparr>,
                m\<lparr>m_boxes := bb, m_stores := m_stores m @ [(current_index, tid)]\<rparr>)
        }
      | Returned \<Rightarrow> Some (th, m))"

definition sched_step ::
  "(int \<Rightarrow> 'th \<Rightarrow> 'm \<Rightarrow> ('th \<times> 'm) option) \<Rightarrow> int \<Rightarrow> 'th list \<times> 'm \<Rightarrow> ('th list \<times> 'm) option" where
  "sched_step step tid s = (case s of (ths, m) \<Rightarrow> do {
       th \<leftarrow> rd ths tid;
       (th', m') \<leftarrow> step tid th m;
       ths' \<leftarrow> wr ths tid th';
       Some (ths', m')
     })"

definition assign_bounding_boxes_kernel ::
  "int \<Rightarrow> int list \<Rightarrow> int list \<Rightarrow> int list \<Rightarrow> 'a::{linorder,zero} vec3 list \<Rightarrow> 'a vec3 list \<Rightarrow> int list \<Rightarrow>
   nat \<Rightarrow> int list \<Rightarrow> 'a bb_mem \<Rightarrow> 'a bb_mem option" where
  "assign_bounding_boxes_kernel num_leaves left_nodes right_nodes parent_nodes lower_bounds
       upper_bounds leaf_indcies dim sched m =
     do {
       (ths, m') \<leftarrow> run_threads
          (sched_step (assign_bounding_boxes_step num_leaves left_nodes right_nodes parent_nodes
              lower_bounds upper_bounds leaf_indcies))
          sched
          (replicate dim \<lparr>t_pc = Start, t_current = 0, t_parent = 0,
              t_aabb = \<lparr>lower = (0, 0, 0), upper = (0, 0, 0)\<rparr>\<rparr>, m);
       if list_all (\<lambda>th. t_pc th = Returned) ths then Some m' else None
     }"


text \<open>
  What the launch is verified against. \<open>valid_bvh\<close> adds the parent array to a valid
  topology: the root has parent \<open>-1\<close> and both children of an internal node have that node as
  parent. \<open>valid_inputs\<close> says that the first \<open>N\<close> leaf indices point into the input arrays.
  \<open>tbox\<close> is the box a subtree must get: the input box of a leaf, the merge of the children's
  boxes otherwise.

  The invariant of the interleaving, \<open>bb_inv\<close>: a thread that has started sits on the root of a
  subtree that contains its leaf and whose boxes are all stored (\<open>inv_thread\<close>); no two threads
  sit on the same node and no running thread is below another (\<open>inv_front\<close>); the flag of an
  internal node counts the threads that have arrived at it (\<open>inv_flags\<close>): none, one that has
  returned, or two of which the second is about to merge, and it is two once a thread sits at
  or above the node (\<open>inside\<close>). \<open>tr_inv\<close> relates the two traces to the flags.
  \<open>steps_left\<close> bounds the actions a thread still takes, and \<open>sequential_schedule\<close> runs the
  threads one after the other, each for enough actions to return.
\<close>

definition valid_bvh :: "nat \<Rightarrow> int list \<Rightarrow> int list \<Rightarrow> int list \<Rightarrow> bvh_tree \<Rightarrow> bool" where
  "valid_bvh N L R P t =
     (valid_topology N L R t \<and> length P = 2 * N - 1 \<and> rd P 0 = Some (- 1) \<and>
      list_all (\<lambda>s. case s of Lf k \<Rightarrow> True
                 | Nd i l r \<Rightarrow> rd P (root l) = Some i \<and> rd P (root r) = Some i) (subtrees t))"

definition valid_inputs :: "nat \<Rightarrow> 'a vec3 list \<Rightarrow> 'a vec3 list \<Rightarrow> int list \<Rightarrow> bool" where
  "valid_inputs N lo up leaf =
     (N \<le> length leaf \<and>
      list_all (\<lambda>k. 0 \<le> k \<and> k < int (length lo) \<and> k < int (length up)) (take N leaf))"

fun tbox :: "nat \<Rightarrow> 'a::linorder vec3 list \<Rightarrow> 'a vec3 list \<Rightarrow> int list \<Rightarrow> bvh_tree \<Rightarrow> 'a Aabb" where
  "tbox N lo up leaf (Lf k) =
     \<lparr>lower = lo ! nat (leaf ! nat (k - (int N - 1))), upper = up ! nat (leaf ! nat (k - (int N - 1)))\<rparr>"
| "tbox N lo up leaf (Nd i l r) = aabb_merge (tbox N lo up leaf l) (tbox N lo up leaf r)"

definition cur_node :: "nat \<Rightarrow> nat \<Rightarrow> 'a bb_thread \<Rightarrow> int" where
  "cur_node N a th = (if t_pc th = Start then int N - 1 + int a else t_current th)"

definition inside :: "bvh_tree \<Rightarrow> 'a bb_thread list \<Rightarrow> int \<Rightarrow> bool" where
  "inside t ths v = (\<exists>a < length ths. t_pc (ths ! a) \<noteq> Start \<and>
     (\<exists>s \<in> set (subtrees t). root s = t_current (ths ! a) \<and> v \<in> set (preorder s)))"

definition waiting :: "'a bb_thread list \<Rightarrow> int \<Rightarrow> nat set" where
  "waiting ths p = {a. a < length ths \<and> (t_pc (ths ! a) = Merge \<or> t_pc (ths ! a) = Returned) \<and>
     t_parent (ths ! a) = p}"

definition inv_thread ::
  "nat \<Rightarrow> int list \<Rightarrow> 'a::linorder vec3 list \<Rightarrow> 'a vec3 list \<Rightarrow> int list \<Rightarrow> bvh_tree \<Rightarrow>
   'a Aabb list \<Rightarrow> nat \<Rightarrow> 'a bb_thread \<Rightarrow> bool" where
  "inv_thread N P lo up leaf t B a th =
     (t_pc th \<noteq> Start \<longrightarrow>
       (\<exists>s \<in> set (subtrees t). root s = t_current th \<and> int N - 1 + int a \<in> set (preorder s) \<and>
          rd P (t_current th) = Some (t_parent th) \<and>
          (\<forall>u \<in> set (subtrees s). B ! nat (root u) = tbox N lo up leaf u) \<and>
          (t_pc th \<noteq> Returned \<longrightarrow> t_aabb th = tbox N lo up leaf s) \<and>
          (t_pc th = Merge \<longrightarrow> t_parent th \<noteq> - 1)))"

definition inv_front :: "nat \<Rightarrow> bvh_tree \<Rightarrow> 'a bb_thread list \<Rightarrow> bool" where
  "inv_front N t ths =
     (\<forall>a < N. \<forall>b < N. a \<noteq> b \<longrightarrow> t_pc (ths ! b) \<noteq> Start \<longrightarrow>
        (t_pc (ths ! a) \<noteq> Returned \<longrightarrow>
           \<not> (\<exists>s \<in> set (subtrees t). root s = t_current (ths ! b) \<and>
                 cur_node N a (ths ! a) \<in> set (preorder s))) \<and>
        (t_pc (ths ! a) \<noteq> Start \<longrightarrow> t_current (ths ! a) \<noteq> t_current (ths ! b)))"

definition inv_flag_at :: "bvh_tree \<Rightarrow> 'a bb_thread list \<Rightarrow> int list \<Rightarrow> int \<Rightarrow> bool" where
  "inv_flag_at t ths F p =
        (if inside t ths p then F ! nat p = 2
         else (F ! nat p = 0 \<and> waiting ths p = {}) \<or>
              (\<exists>a. F ! nat p = 1 \<and> waiting ths p = {a} \<and> t_pc (ths ! a) = Returned) \<or>
              (\<exists>a b. a \<noteq> b \<and> F ! nat p = 2 \<and> waiting ths p = {a, b} \<and>
                 t_pc (ths ! a) = Merge \<and> t_pc (ths ! b) = Returned))"

definition inv_flags :: "nat \<Rightarrow> bvh_tree \<Rightarrow> 'a bb_thread list \<Rightarrow> int list \<Rightarrow> bool" where
  "inv_flags N t ths F = (\<forall>p. 0 \<le> p \<and> p < int N - 1 \<longrightarrow> inv_flag_at t ths F p)"

definition bb_inv ::
  "nat \<Rightarrow> int list \<Rightarrow> 'a::linorder vec3 list \<Rightarrow> 'a vec3 list \<Rightarrow> int list \<Rightarrow> bvh_tree \<Rightarrow>
   'a bb_thread list \<Rightarrow> int list \<Rightarrow> 'a Aabb list \<Rightarrow> bool" where
  "bb_inv N P lo up leaf t ths F B =
     (length ths = N \<and> length F = N - 1 \<and> length B = 2 * N - 1 \<and>
      (\<forall>a < N. inv_thread N P lo up leaf t B a (ths ! a)) \<and>
      inv_front N t ths \<and> inv_flags N t ths F)"

definition arrivals_at :: "'a bb_mem \<Rightarrow> int \<Rightarrow> int list" where
  "arrivals_at m p = map snd (filter (\<lambda>e. fst e = p) (m_arrivals m))"

definition stores_at :: "'a bb_mem \<Rightarrow> int \<Rightarrow> int list" where
  "stores_at m v = map snd (filter (\<lambda>e. fst e = v) (m_stores m))"

definition tr_inv :: "nat \<Rightarrow> bvh_tree \<Rightarrow> 'a bb_thread list \<Rightarrow> 'a bb_mem \<Rightarrow> bool" where
  "tr_inv N t ths m =
     ((\<forall>p. 0 \<le> p \<and> p < int N - 1 \<longrightarrow>
         int (length (arrivals_at m p)) = m_flags m ! nat p \<and>
         stores_at m p = (if inside t ths p then [last (arrivals_at m p)] else []) \<and>
         (\<forall>a < N. t_pc (ths ! a) = Merge \<and> t_parent (ths ! a) = p \<longrightarrow>
            arrivals_at m p \<noteq> [] \<and> last (arrivals_at m p) = int a)) \<and>
      (\<forall>a < N. stores_at m (int N - 1 + int a) = (if t_pc (ths ! a) = Start then [] else [int a])))"

definition node_size :: "bvh_tree \<Rightarrow> int \<Rightarrow> nat" where
  "node_size t c = (case find (\<lambda>s. root s = c) (subtrees t) of
      Some s \<Rightarrow> length (preorder s) | None \<Rightarrow> 0)"

definition steps_left :: "bvh_tree \<Rightarrow> 'a bb_thread \<Rightarrow> nat" where
  "steps_left t th = (case t_pc th of
      Start \<Rightarrow> 2 * length (preorder t) + 1
    | Arrive \<Rightarrow> 2 * (length (preorder t) - node_size t (t_current th)) + 2
    | Merge \<Rightarrow> 2 * (length (preorder t) - node_size t (t_current th)) + 1
    | Returned \<Rightarrow> 0)"

definition sequential_schedule :: "nat \<Rightarrow> int list" where
  "sequential_schedule N = concat (map (\<lambda>a. replicate (4 * N) (int a)) [0..<N])"


section \<open>Radix tree (kernels.py, construct_binary_radix_tree_kernel)\<close>

text \<open>
  Indices and Morton codes are \<open>int\<close>; \<open>clz\<close> counts the leading zero bits of the low 32
  bits of its argument (the cast to \<open>wp.uint32\<close>). The three loops are partial functions.
\<close>

unbundle bit_operations_syntax

definition clz :: "int \<Rightarrow> int" where
  "clz x = int (length (takeWhile (\<lambda>k. \<not> bit x k) (rev [0..<32])))"

definition common_prefix :: "int \<Rightarrow> int \<Rightarrow> int \<Rightarrow> int \<Rightarrow> int" where
  "common_prefix m0 m1 i j = (if m0 \<noteq> m1 then clz (m0 XOR m1) else clz (i XOR j) + 32)"

definition delta :: "int \<Rightarrow> int list \<Rightarrow> int \<Rightarrow> int \<Rightarrow> int \<Rightarrow> int option" where
  "delta m0 sorted_morton_codes i j num_leaves =
     (if 0 \<le> j \<and> j < num_leaves then
        do { mj \<leftarrow> rd sorted_morton_codes j; Some (common_prefix m0 mj i j) }
      else Some (- 1))"

definition sign :: "int \<Rightarrow> int" where
  "sign x = (if x < 0 then - 1 else 1)"

partial_function (option) expand_range ::
  "int \<Rightarrow> int list \<Rightarrow> int \<Rightarrow> int \<Rightarrow> int \<Rightarrow> int \<Rightarrow> int \<Rightarrow> int option" where
  "expand_range m0 sorted_morton_codes i num_leaves d d_min lmax =
     do {
       dl \<leftarrow> delta m0 sorted_morton_codes i (i + lmax * d) num_leaves;
       if dl > d_min then expand_range m0 sorted_morton_codes i num_leaves d d_min (lmax * 2)
       else Some lmax
     }"

declare expand_range.simps [code]

partial_function (option) search_range ::
  "int \<Rightarrow> int list \<Rightarrow> int \<Rightarrow> int \<Rightarrow> int \<Rightarrow> int \<Rightarrow> int \<Rightarrow> int \<Rightarrow> int option" where
  "search_range m0 sorted_morton_codes i num_leaves d d_min l t =
     (if t \<ge> 1 then
        do {
          dl \<leftarrow> delta m0 sorted_morton_codes i (i + (l + t) * d) num_leaves;
          search_range m0 sorted_morton_codes i num_leaves d d_min
            (if dl > d_min then l + t else l) (t div 2)
        }
      else Some l)"

declare search_range.simps [code]

definition determine_range :: "int list \<Rightarrow> int \<Rightarrow> int \<Rightarrow> (int \<times> int) option" where
  "determine_range sorted_morton_codes i num_leaves =
     do {
       m0 \<leftarrow> rd sorted_morton_codes i;
       d_l \<leftarrow> delta m0 sorted_morton_codes i (i - 1) num_leaves;
       d_r \<leftarrow> delta m0 sorted_morton_codes i (i + 1) num_leaves;
       let d = sign (d_r - d_l);
       let d_min = min d_l d_r;
       lmax \<leftarrow> expand_range m0 sorted_morton_codes i num_leaves d d_min 2;
       l \<leftarrow> search_range m0 sorted_morton_codes i num_leaves d d_min 0 (lmax div 2);
       let j = i + l * d;
       Some (min i j, max i j)
     }"

partial_function (option) split_search ::
  "int list \<Rightarrow> int \<Rightarrow> int \<Rightarrow> int \<Rightarrow> int \<Rightarrow> int \<Rightarrow> int \<Rightarrow> int option" where
  "split_search sorted_morton_codes first last' first_code d_min split step =
     (if step > 1 then
        (let step' = (step + 1) div 2; new_split = split + step' in
         if new_split < last' then
           do {
             c \<leftarrow> rd sorted_morton_codes new_split;
             split_search sorted_morton_codes first last' first_code d_min
               (if common_prefix first_code c first new_split > d_min then new_split else split) step'
           }
         else split_search sorted_morton_codes first last' first_code d_min split step')
      else Some split)"

declare split_search.simps [code]

definition find_split :: "int list \<Rightarrow> int \<Rightarrow> int \<Rightarrow> int option" where
  "find_split sorted_morton_codes first last' =
     do {
       last_code \<leftarrow> rd sorted_morton_codes last';
       first_code \<leftarrow> rd sorted_morton_codes first;
       let d_min = common_prefix first_code last_code first last';
       split_search sorted_morton_codes first last' first_code d_min first (last' - first)
     }"

definition construct_binary_radix_tree_kernel ::
  "int \<Rightarrow> int list \<Rightarrow> int \<Rightarrow> int list \<times> int list \<times> int list \<Rightarrow>
   (int list \<times> int list \<times> int list) option" where
  "construct_binary_radix_tree_kernel num_leaves sorted_morton_codes i s =
     (case s of (left_nodes, right_nodes, parent_nodes) \<Rightarrow>
      do {
        (first, last') \<leftarrow> determine_range sorted_morton_codes i num_leaves;
        split \<leftarrow> find_split sorted_morton_codes first last';
        let left = (if first = split then split + (num_leaves - 1) else split);
        let right = (if last' = split + 1 then split + 1 + (num_leaves - 1) else split + 1);
        ln \<leftarrow> wr left_nodes i left;
        rn \<leftarrow> wr right_nodes i right;
        p1 \<leftarrow> wr parent_nodes left i;
        p2 \<leftarrow> wr p1 right i;
        p3 \<leftarrow> (if i = 0 then wr p2 0 (- 1) else Some p2);
        Some (ln, rn, p3)
      })"


section \<open>The Bvh class (bvh.py)\<close>

text \<open>
  A \<open>wp.array\<close> argument is its data and its device. The floating-point kernels of
  \<open>rebuild\<close> (scene bounds, normalisation and quantisation to Morton codes) and Warp's
  device radix sort are not part of the embedding: their results enter as \<open>device_env\<close>,
  the Morton code of every leaf and the sorted key and index arrays. \<open>rebuild\<close> and
  \<open>refit\<close> also take the schedule of the bounding-box kernel. The verification kernel of
  \<open>rebuild\<close> only prints and is left out.
\<close>

datatype device = Cpu | Cuda nat

fun is_cuda :: "device \<Rightarrow> bool" where
  "is_cuda Cpu = False"
| "is_cuda (Cuda n) = True"

record 'a wp_array =
  arr_data :: "'a list"
  arr_device :: device

datatype py_error = ValueError string

record 'a Bvh =
  self_lower_bounds :: "'a vec3 list"
  self_upper_bounds :: "'a vec3 list"
  self_device :: device
  self_num_leaves :: int
  self_num_internal_nodes :: int
  self_num_total_nodes :: int
  self_flags :: "int list"
  self_leaf_indices :: "int list"
  self_morton_codes :: "int list"
  self_bound_boxes :: "'a Aabb list"
  self_parent_nodes :: "int list"
  self_left_nodes :: "int list"
  self_right_nodes :: "int list"
  self_escape_indices :: "int list"
  self_bvh_nodes :: "'a BvhNode list"

record 'a device_env =
  env_morton_codes :: "'a vec3 list \<Rightarrow> 'a vec3 list \<Rightarrow> int list"
  env_radix_sort_pairs :: "int list \<Rightarrow> int list \<Rightarrow> nat \<Rightarrow> int list \<times> int list"

definition zero_aabb :: "'a::zero Aabb" where
  "zero_aabb = \<lparr>lower = (0, 0, 0), upper = (0, 0, 0)\<rparr>"

definition zero_node :: "'a::zero BvhNode" where
  "zero_node = \<lparr>aabb = zero_aabb, left_or_leaf = 0, escape_index = 0\<rparr>"

definition refit :: "int list \<Rightarrow> 'a::{linorder,zero} Bvh \<Rightarrow> py_error + 'a Bvh option" where
  "refit sched self =
     (if self_num_leaves self = 0 then Inr (Some self)
      else Inr (do {
        let flags0 = replicate (length (self_flags self)) 0;
        m \<leftarrow> assign_bounding_boxes_kernel (self_num_leaves self) (self_left_nodes self)
               (self_right_nodes self) (self_parent_nodes self) (self_lower_bounds self)
               (self_upper_bounds self) (self_leaf_indices self)
               (nat (self_num_leaves self)) sched
               \<lparr>m_flags = flags0, m_boxes = self_bound_boxes self, m_arrivals = [], m_stores = []\<rparr>;
        nodes \<leftarrow> launch (compact_bvh_nodes_kernel (self_num_leaves self) (m_boxes m)
               (self_left_nodes self) (self_leaf_indices self) (self_escape_indices self))
               (nat (self_num_total_nodes self)) (self_bvh_nodes self);
        Some (self\<lparr>self_flags := m_flags m, self_bound_boxes := m_boxes m, self_bvh_nodes := nodes\<rparr>)
      }))"

definition init_leaf_indices_kernel :: "int \<Rightarrow> int list \<Rightarrow> int list option" where
  "init_leaf_indices_kernel tid leaf_indices = wr leaf_indices tid tid"

definition rebuild ::
  "'a device_env \<Rightarrow> int list \<Rightarrow> 'a::{linorder,zero} Bvh \<Rightarrow> py_error + 'a Bvh option" where
  "rebuild env sched self =
     (if self_num_leaves self = 0 then Inr (Some self)
      else
        (case do {
           let n = nat (self_num_leaves self);
           li \<leftarrow> launch init_leaf_indices_kernel n (self_leaf_indices self);
           let codes = env_morton_codes env (self_lower_bounds self) (self_upper_bounds self);
           mc \<leftarrow> (if length codes = n \<and> n \<le> length (self_morton_codes self)
                  then Some (codes @ drop n (self_morton_codes self)) else None);
           let (mc', li') = env_radix_sort_pairs env mc li n;
           (ln, rn, pn) \<leftarrow>
             (if self_num_leaves self > 1 then
                launch (construct_binary_radix_tree_kernel (self_num_leaves self) mc')
                  (nat (self_num_internal_nodes self))
                  (self_left_nodes self, self_right_nodes self, self_parent_nodes self)
              else Some (self_left_nodes self, self_right_nodes self,
                         replicate (length (self_parent_nodes self)) (- 1)));
           esc \<leftarrow> launch (assign_escape_indices_kernel (self_num_internal_nodes self) ln rn) n
                    (self_escape_indices self);
           Some (self\<lparr>self_leaf_indices := li', self_morton_codes := mc', self_left_nodes := ln,
                      self_right_nodes := rn, self_parent_nodes := pn, self_escape_indices := esc\<rparr>)
         } of
           None \<Rightarrow> Inr None
         | Some self' \<Rightarrow> refit sched self'))"

definition Bvh_alloc :: "'a::zero vec3 wp_array \<Rightarrow> 'a vec3 wp_array \<Rightarrow> 'a Bvh" where
  "Bvh_alloc lower_bounds upper_bounds =
     (let num_leaves = int (length (arr_data lower_bounds));
          num_internal_nodes = max 0 (num_leaves - 1);
          num_total_nodes = max 0 (2 * num_leaves - 1)
      in \<lparr>self_lower_bounds = arr_data lower_bounds,
          self_upper_bounds = arr_data upper_bounds,
          self_device = arr_device lower_bounds,
          self_num_leaves = num_leaves,
          self_num_internal_nodes = num_internal_nodes,
          self_num_total_nodes = num_total_nodes,
          self_flags = replicate (nat num_internal_nodes) 0,
          self_leaf_indices = replicate (nat (num_leaves * 2)) 0,
          self_morton_codes = replicate (nat (num_leaves * 2)) 0,
          self_bound_boxes = replicate (nat num_total_nodes) zero_aabb,
          self_parent_nodes = replicate (nat num_total_nodes) 0,
          self_left_nodes = replicate (nat num_internal_nodes) 0,
          self_right_nodes = replicate (nat num_internal_nodes) 0,
          self_escape_indices = replicate (nat num_total_nodes) 0,
          self_bvh_nodes = replicate (nat num_total_nodes) zero_node\<rparr>)"

definition Bvh_init ::
  "'a device_env \<Rightarrow> int list \<Rightarrow> 'a::{linorder,zero} vec3 wp_array \<Rightarrow> 'a vec3 wp_array \<Rightarrow>
   py_error + 'a Bvh option" where
  "Bvh_init env sched lower_bounds upper_bounds =
     (if length (arr_data lower_bounds) \<noteq> length (arr_data upper_bounds) then
        Inl (ValueError ''lower_bounds and upper_bounds must have the same length'')
      else if arr_device lower_bounds \<noteq> arr_device upper_bounds then
        Inl (ValueError ''lower_bounds and upper_bounds must be on the same device'')
      else if \<not> is_cuda (arr_device lower_bounds) then
        Inl (ValueError ''Bvh requires a CUDA device'')
      else rebuild env sched (Bvh_alloc lower_bounds upper_bounds))"







section \<open>Properties\<close>

subsection \<open>Launches\<close>

lemma run_threads_append:
  "run_threads k (ts @ us) s =
     (case run_threads k ts s of None \<Rightarrow> None | Some s' \<Rightarrow> run_threads k us s')"
  by (induction ts arbitrary: s) (auto split: option.splits)

lemma launch_Suc:
  "launch k (Suc n) s =
     (case launch k n s of None \<Rightarrow> None | Some s' \<Rightarrow> k (int n) s')"
  by (simp add: launch_def run_threads_append split: option.splits)

lemma launch_0: "launch k 0 s = Some s"
  by (simp add: launch_def)

text \<open>A kernel whose thread \<open>t\<close> does nothing but store \<open>f t\<close> at index \<open>t\<close>.\<close>

lemma launch_pointwise_upto:
  assumes "\<And>t s. t < dim \<Longrightarrow> length s = m \<Longrightarrow> k (int t) s = Some (s[t := f t])"
    and "dim \<le> m" and "length s0 = m"
  shows "n \<le> dim \<Longrightarrow> launch k n s0 = Some (map f [0..<n] @ drop n s0)"
proof (induction n)
  case 0
  then show ?case by (simp add: launch_0)
next
  case (Suc n)
  let ?s = "map f [0..<n] @ drop n s0"
  have n: "n < dim" "n < length s0" using Suc.prems assms(2,3) by simp_all
  have len: "length ?s = m" using n assms(3) by simp
  have "launch k (Suc n) s0 = k (int n) ?s"
    using Suc by (simp add: launch_Suc)
  also have "\<dots> = Some (?s[n := f n])"
    using assms(1)[OF n(1) len] .
  also have "?s[n := f n] = map f [0..<Suc n] @ drop (Suc n) s0"
  proof -
    have "drop n s0 = s0 ! n # drop (Suc n) s0"
      using n(2) by (simp add: Cons_nth_drop_Suc)
    then show ?thesis by (simp add: list_update_append)
  qed
  finally show ?case .
qed

lemma launch_pointwise:
  assumes "\<And>t s. t < dim \<Longrightarrow> length s = m \<Longrightarrow> k (int t) s = Some (s[t := f t])"
    and "dim \<le> m" and "length s0 = m"
  shows "launch k dim s0 = Some (map f [0..<dim] @ drop dim s0)"
  using launch_pointwise_upto[OF assms, of dim] by simp

subsection \<open>The linearised node array\<close>

lemma compact_thread:
  assumes "1 \<le> N" "length aabbs = 2 * N - 1" "length esc = 2 * N - 1"
    "length left_nodes = N - 1" "N \<le> length leaf_indices"
    "length nodes = 2 * N - 1" "t < 2 * N - 1"
  shows "compact_bvh_nodes_kernel (int N) aabbs left_nodes leaf_indices esc (int t) nodes =
     Some (nodes[t := \<lparr>aabb = aabbs ! t,
        left_or_leaf = (if t < N - 1 then left_nodes ! t else - (leaf_indices ! (t - (N - 1))) - 1),
        escape_index = esc ! t\<rparr>])"
proof (cases "t < N - 1")
  case True
  then have "int t < int N - 1" by linarith
  then show ?thesis using True assms
    by (simp add: compact_bvh_nodes_kernel_def rd_def wr_def)
next
  case False
  then have "nat (int t - (int N - 1)) = t - (N - 1)" "\<not> int t < int N - 1"
    using assms(1) by linarith+
  moreover have "int t - (int N - 1) < int (length leaf_indices)" "0 \<le> int t - (int N - 1)"
    using assms False by linarith+
  ultimately show ?thesis using False assms
    by (simp add: compact_bvh_nodes_kernel_def rd_def wr_def)
qed

text \<open>
  C4. After the compaction kernel (one thread per node index), record \<open>t\<close> holds the box
  and the escape index of node \<open>t\<close>; its link is \<open>left[t]\<close> for an internal node
  (\<open>t < N - 1\<close>) and \<open>-leaf_perm[t - (N - 1)] - 1\<close> for a leaf. With non-negative child and
  leaf indices, a record is a leaf exactly when its link is negative, and the original leaf
  index is \<open>-link - 1\<close>.
\<close>

theorem compact_bvh_nodes_layout:
  assumes "1 \<le> N" "length aabbs = 2 * N - 1" "length esc = 2 * N - 1"
    "length left_nodes = N - 1" "N \<le> length leaf_indices"
    "length nodes = 2 * N - 1"
  shows "\<exists>out. launch (compact_bvh_nodes_kernel (int N) aabbs left_nodes leaf_indices esc)
           (2 * N - 1) nodes = Some out \<and> length out = 2 * N - 1 \<and>
     (\<forall>t < 2 * N - 1.
        aabb (out ! t) = aabbs ! t \<and> escape_index (out ! t) = esc ! t \<and>
        left_or_leaf (out ! t) =
          (if t < N - 1 then left_nodes ! t else - (leaf_indices ! (t - (N - 1))) - 1)) \<and>
     ((\<forall>i < N - 1. 0 \<le> left_nodes ! i) \<and> (\<forall>k < N. 0 \<le> leaf_indices ! k) \<longrightarrow>
      (\<forall>t < 2 * N - 1.
        (left_or_leaf (out ! t) < 0 \<longleftrightarrow> N - 1 \<le> t) \<and>
        (N - 1 \<le> t \<longrightarrow> leaf_indices ! (t - (N - 1)) = - left_or_leaf (out ! t) - 1)))"
proof -
  let ?f = "\<lambda>t. \<lparr>aabb = aabbs ! t,
        left_or_leaf = (if t < N - 1 then left_nodes ! t else - (leaf_indices ! (t - (N - 1))) - 1),
        escape_index = esc ! t\<rparr>"
  let ?out = "map ?f [0..<2 * N - 1] @ drop (2 * N - 1) nodes"
  have run: "launch (compact_bvh_nodes_kernel (int N) aabbs left_nodes leaf_indices esc)
           (2 * N - 1) nodes = Some ?out"
  proof (rule launch_pointwise[where m = "2 * N - 1"])
    fix t s assume "t < 2 * N - 1" "length (s :: 'a BvhNode list) = 2 * N - 1"
    then show "compact_bvh_nodes_kernel (int N) aabbs left_nodes leaf_indices esc (int t) s
        = Some (s[t := ?f t])"
      using compact_thread[OF assms(1-5), of s t] by simp
  qed (use assms in simp_all)
  have nth: "?out ! t = ?f t" if "t < 2 * N - 1" for t
    using that by (simp add: nth_append)
  have len: "length ?out = 2 * N - 1" using assms by simp
  have a: "\<forall>t < 2 * N - 1.
        aabb (?out ! t) = aabbs ! t \<and> escape_index (?out ! t) = esc ! t \<and>
        left_or_leaf (?out ! t) =
          (if t < N - 1 then left_nodes ! t else - (leaf_indices ! (t - (N - 1))) - 1)"
    using nth by simp
  have b: "(\<forall>i < N - 1. 0 \<le> left_nodes ! i) \<and> (\<forall>k < N. 0 \<le> leaf_indices ! k) \<longrightarrow>
      (\<forall>t < 2 * N - 1.
        (left_or_leaf (?out ! t) < 0 \<longleftrightarrow> N - 1 \<le> t) \<and>
        (N - 1 \<le> t \<longrightarrow> leaf_indices ! (t - (N - 1)) = - left_or_leaf (?out ! t) - 1))"
  proof (intro impI allI)
    fix t
    assume nn: "(\<forall>i < N - 1. 0 \<le> left_nodes ! i) \<and> (\<forall>k < N. 0 \<le> leaf_indices ! k)"
      and t: "t < 2 * N - 1"
    show "(left_or_leaf (?out ! t) < 0 \<longleftrightarrow> N - 1 \<le> t) \<and>
        (N - 1 \<le> t \<longrightarrow> leaf_indices ! (t - (N - 1)) = - left_or_leaf (?out ! t) - 1)"
    proof (cases "t < N - 1")
      case True
      then have "0 \<le> left_nodes ! t" using nn by blast
      then show ?thesis using True nth[OF t] by simp
    next
      case False
      then have "t - (N - 1) < N" using t by linarith
      then have "0 \<le> leaf_indices ! (t - (N - 1))" using nn by blast
      then show ?thesis using False nth[OF t] by simp
    qed
  qed
  show ?thesis using run len a b by blast
qed

theorem compact_bvh_nodes_layout_witness:
  "(1::nat) \<le> 2 \<and>
   length [\<lparr>lower = (0,0,0), upper = (3,3,3)\<rparr>, \<lparr>lower = (0,0,0), upper = (1,1,1)\<rparr>,
           \<lparr>lower = (2,2,2), upper = (3::int,3,3)\<rparr>] = 2 * 2 - 1 \<and>
   length [-1, 2, -1 :: int] = 2 * 2 - 1 \<and> length [1 :: int] = 2 - 1 \<and>
   2 \<le> length [1, 0, 0, 0 :: int] \<and>
   (\<exists>out. launch (compact_bvh_nodes_kernel (int 2)
        [\<lparr>lower = (0,0,0), upper = (3,3,3)\<rparr>, \<lparr>lower = (0,0,0), upper = (1,1,1)\<rparr>,
           \<lparr>lower = (2,2,2), upper = (3::int,3,3)\<rparr>] [1] [1, 0, 0, 0] [-1, 2, -1])
        (2 * 2 - 1) (replicate 3 \<lparr>aabb = \<lparr>lower = (0,0,0), upper = (0,0,0)\<rparr>, left_or_leaf = 0, escape_index = 0\<rparr>) = Some out \<and>
      left_or_leaf (out ! 0) = 1 \<and> left_or_leaf (out ! 1) = -2 \<and> left_or_leaf (out ! 2) = -1 \<and>
      escape_index (out ! 1) = 2)"
  using compact_bvh_nodes_layout[of 2
        "[\<lparr>lower = (0,0,0), upper = (3,3,3)\<rparr>, \<lparr>lower = (0,0,0), upper = (1,1,1)\<rparr>,
           \<lparr>lower = (2,2,2), upper = (3::int,3,3)\<rparr>]" "[-1, 2, -1]" "[1]" "[1, 0, 0, 0]"
        "replicate 3 \<lparr>aabb = \<lparr>lower = (0,0,0), upper = (0,0,0)\<rparr>, left_or_leaf = 0, escape_index = 0\<rparr>"]
  by (auto simp: numeral_3_eq_3)

subsection \<open>Trees\<close>

lemma map_root_subtrees: "map root (subtrees t) = preorder t"
  by (induction t) auto

lemma rspine_root: "rspine t = root t # tl (rspine t)"
  by (cases t) auto

lemma preorder_root: "preorder t = root t # tl (preorder t)"
  by (cases t) auto

lemma rspine_subset: "set (rspine t) \<subseteq> set (preorder t)"
  by (induction t) auto

lemma subtree_preorder_subset: "s \<in> set (subtrees t) \<Longrightarrow> set (preorder s) \<subseteq> set (preorder t)"
  by (induction t) auto

lemma encodes_subtree: "encodes n L R t \<Longrightarrow> s \<in> set (subtrees t) \<Longrightarrow> encodes n L R s"
  by (induction t) auto

lemma map_fst_escs: "map fst (escs t e) = preorder t"
  by (induction t arbitrary: e) auto

lemma escs_spine: "c \<in> set (rspine t) \<Longrightarrow> (c, e) \<in> set (escs t e)"
  by (induction t arbitrary: e) auto

lemma escs_left_spine:
  "Nd i l r \<in> set (subtrees t) \<Longrightarrow> c \<in> set (rspine l) \<Longrightarrow> (c, root r) \<in> set (escs t e)"
  by (induction t arbitrary: e) (auto simp: escs_spine)

lemma escs_cases:
  "(c, e') \<in> set (escs t e) \<Longrightarrow>
     (c \<in> set (rspine t) \<and> e' = e) \<or>
     (\<exists>i l r. Nd i l r \<in> set (subtrees t) \<and> c \<in> set (rspine l) \<and> e' = root r)"
proof (induction t arbitrary: e)
  case (Lf k)
  then show ?case by simp
next
  case (Nd i l r)
  from Nd.prems consider "c = i \<and> e' = e" | "(c, e') \<in> set (escs l (root r))"
    | "(c, e') \<in> set (escs r e)" by auto
  then show ?case
  proof cases
    case 1
    then show ?thesis by simp
  next
    case 2
    from Nd.IH(1)[OF 2] consider "c \<in> set (rspine l) \<and> e' = root r"
      | j a b where "Nd j a b \<in> set (subtrees l)" "c \<in> set (rspine a)" "e' = root b"
      by blast
    then show ?thesis
    proof cases
      case 1
      have "Nd i l r \<in> set (subtrees (Nd i l r))" by simp
      with 1 show ?thesis by blast
    next
      case 2
      then have "Nd j a b \<in> set (subtrees (Nd i l r))" by simp
      with 2 show ?thesis by blast
    qed
  next
    case 3
    from Nd.IH(2)[OF 3] consider "c \<in> set (rspine r) \<and> e' = e"
      | j a b where "Nd j a b \<in> set (subtrees r)" "c \<in> set (rspine a)" "e' = root b"
      by blast
    then show ?thesis
    proof cases
      case 1
      then show ?thesis by simp
    next
      case 2
      then have "Nd j a b \<in> set (subtrees (Nd i l r))" by simp
      with 2 show ?thesis by blast
    qed
  qed
qed

lemma escs_after_subtree:
  "s \<in> set (subtrees t) \<Longrightarrow>
     \<exists>pre post. preorder t = pre @ preorder s @ post \<and>
       (root s, (case post of [] \<Rightarrow> e | w # _ \<Rightarrow> w)) \<in> set (escs t e)"
proof (induction t arbitrary: e)
  case (Lf k)
  then have "s = Lf k" by simp
  then have "preorder (Lf k) = [] @ preorder s @ [] \<and>
       (root s, (case [] :: int list of [] \<Rightarrow> e | w # _ \<Rightarrow> w)) \<in> set (escs (Lf k) e)" by simp
  then show ?case by blast
next
  case (Nd i l r)
  from Nd.prems consider "s = Nd i l r" | "s \<in> set (subtrees l)" | "s \<in> set (subtrees r)"
    by auto
  then show ?case
  proof cases
    case 1
    then have "preorder (Nd i l r) = [] @ preorder s @ [] \<and>
       (root s, (case [] :: int list of [] \<Rightarrow> e | w # _ \<Rightarrow> w)) \<in> set (escs (Nd i l r) e)" by simp
    then show ?thesis by blast
  next
    case 2
    from Nd.IH(1)[OF 2, of "root r"] obtain pre post where
      p: "preorder l = pre @ preorder s @ post"
      and m: "(root s, (case post of [] \<Rightarrow> root r | w # _ \<Rightarrow> w)) \<in> set (escs l (root r))"
      by blast
    have "(case post @ preorder r of [] \<Rightarrow> e | w # _ \<Rightarrow> w) = (case post of [] \<Rightarrow> root r | w # _ \<Rightarrow> w)"
      by (cases post; cases r) auto
    with p m have "preorder (Nd i l r) = (i # pre) @ preorder s @ (post @ preorder r) \<and>
       (root s, (case post @ preorder r of [] \<Rightarrow> e | w # _ \<Rightarrow> w)) \<in> set (escs (Nd i l r) e)"
      by simp
    then show ?thesis by blast
  next
    case 3
    from Nd.IH(2)[OF 3, of e] obtain pre post where
      p: "preorder r = pre @ preorder s @ post"
      and m: "(root s, (case post of [] \<Rightarrow> e | w # _ \<Rightarrow> w)) \<in> set (escs r e)"
      by blast
    then have "preorder (Nd i l r) = (i # preorder l @ pre) @ preorder s @ post \<and>
       (root s, (case post of [] \<Rightarrow> e | w # _ \<Rightarrow> w)) \<in> set (escs (Nd i l r) e)"
      by simp
    then show ?thesis by blast
  qed
qed

lemma distinct_split_unique:
  "distinct (pre @ a # u) \<Longrightarrow> pre @ a # u = pre' @ a # u' \<Longrightarrow> pre = pre' \<and> u = u'"
proof (induction pre arbitrary: pre')
  case Nil
  note prems = Nil.prems
  show ?case
  proof (cases pre')
    assume "pre' = []"
    with prems show ?thesis by simp
  next
    fix y ys assume "pre' = y # ys"
    with prems(2) have "u = ys @ a # u'" by simp
    then have "a \<in> set u" by simp
    with prems(1) show ?thesis by simp
  qed
next
  case (Cons x pre)
  note prems = Cons.prems and IH = Cons.IH
  show ?case
  proof (cases pre')
    assume "pre' = []"
    with prems(2) have "x = a" by simp
    with prems(1) show ?thesis by simp
  next
    fix y ys assume p: "pre' = y # ys"
    with prems(2) have eq: "x = y" "pre @ a # u = ys @ a # u'" by simp_all
    from prems(1) have "distinct (pre @ a # u)" by simp
    from IH[OF this eq(2)] eq(1) p show ?thesis by simp
  qed
qed

lemma preorder_split_unique:
  assumes "distinct (preorder t)" "preorder t = pre @ preorder s @ post"
    "preorder t = pre' @ preorder s @ post'"
  shows "post = post'"
proof -
  obtain u where u: "preorder s = root s # u" using preorder_root by blast
  have d: "distinct (pre @ root s # (u @ post))" using assms(1,2) u by simp
  have e: "pre @ root s # (u @ post) = pre' @ root s # (u @ post')"
    using assms(2,3) u by simp
  from distinct_split_unique[OF d e] have "u @ post = u @ post'" by (rule conjunct2)
  then show ?thesis by (rule same_append_eq[THEN iffD1])
qed


subsection \<open>Writes of one escape thread\<close>

lemma apply_writes_Nil: "apply_writes [] E = E"
  by (simp add: apply_writes_def)

lemma apply_writes_Cons: "apply_writes ((c, e) # ps) E = apply_writes ps (E[nat c := e])"
  by (simp add: apply_writes_def)

lemma apply_writes_append: "apply_writes (ps @ qs) E = apply_writes qs (apply_writes ps E)"
  by (simp add: apply_writes_def)

lemma length_apply_writes: "length (apply_writes ps E) = length E"
  by (induction ps arbitrary: E) (auto simp: apply_writes_Nil apply_writes_Cons)

lemma apply_writes_frame:
  "\<forall>p \<in> set ps. nat (fst p) \<noteq> k \<Longrightarrow> apply_writes ps E ! k = E ! k"
  by (induction ps arbitrary: E) (auto simp: apply_writes_Nil apply_writes_Cons)

lemma apply_writes_value:
  assumes "(c, e) \<in> set ps" "\<forall>p \<in> set ps. 0 \<le> fst p"
    "\<forall>e'. (c, e') \<in> set ps \<longrightarrow> e' = e" "nat c < length E"
  shows "apply_writes ps E ! nat c = e"
  using assms
proof (induction ps arbitrary: E)
  case Nil
  then show ?case by simp
next
  case (Cons p ps)
  obtain c' e' where p: "p = (c', e')" by (cases p)
  show ?case
  proof (cases "(c, e) \<in> set ps")
    case True
    have "apply_writes ps (E[nat c' := e']) ! nat c = e"
      using Cons.IH[OF True] Cons.prems by simp
    then show ?thesis by (simp add: p apply_writes_Cons)
  next
    case False
    with Cons.prems(1) p have ce: "c' = c" "e' = e" by simp_all
    have "\<forall>q \<in> set ps. nat (fst q) \<noteq> nat c"
    proof
      fix q assume q: "q \<in> set ps"
      obtain a b where ab: "q = (a, b)" by (cases q)
      have "0 \<le> a" "0 \<le> c" using Cons.prems(1,2) q ab by force+
      moreover have "a \<noteq> c"
      proof
        assume "a = c"
        with q ab Cons.prems(3) have "b = e" by simp
        with \<open>a = c\<close> q ab False show False by simp
      qed
      ultimately show "nat (fst q) \<noteq> nat c" using ab by simp
    qed
    then have "apply_writes ps (E[nat c := e]) ! nat c = (E[nat c := e]) ! nat c"
      by (rule apply_writes_frame)
    then show ?thesis using Cons.prems(4) by (simp add: p ce apply_writes_Cons)
  qed
qed

lemma escape_walk_spine:
  assumes "encodes n L R t" "\<forall>c \<in> set (rspine t). 0 \<le> c \<and> c < int (length E)"
  shows "escape_walk n R e (root t) E = Some (apply_writes (map (\<lambda>c. (c, e)) (tl (rspine t))) E)"
  using assms
proof (induction t arbitrary: E)
  case (Lf k)
  then show ?case
    by (subst escape_walk.simps) (simp add: apply_writes_Nil)
next
  case (Nd i l r)
  have rr: "rd R i = Some (root r)" and i: "i < n" and er: "encodes n L R r"
    using Nd.prems(1) by simp_all
  have sp: "rspine r = root r # tl (rspine r)" by (rule rspine_root)
  have "root r \<in> set (rspine r)" by (subst sp) simp
  then have rng: "0 \<le> root r \<and> root r < int (length E)" using Nd.prems(2) by simp
  have w: "wr E (root r) e = Some (E[nat (root r) := e])" using rng by (simp add: wr_def)
  have "\<forall>c \<in> set (rspine r). 0 \<le> c \<and> c < int (length (E[nat (root r) := e]))"
    using Nd.prems(2) by simp
  from Nd.IH(2)[OF er this]
  have ih: "escape_walk n R e (root r) (E[nat (root r) := e]) =
      Some (apply_writes (map (\<lambda>c. (c, e)) (tl (rspine r))) (E[nat (root r) := e]))" .
  have "map (\<lambda>c. (c, e)) (rspine r) = (root r, e) # map (\<lambda>c. (c, e)) (tl (rspine r))"
    by (subst sp) simp
  then have "apply_writes (map (\<lambda>c. (c, e)) (tl (rspine (Nd i l r)))) E =
      apply_writes (map (\<lambda>c. (c, e)) (tl (rspine r))) (E[nat (root r) := e])"
    by (simp add: apply_writes_Cons)
  with ih rr w i show ?case
    by (subst escape_walk.simps) simp
qed

lemma escape_thread_spine:
  assumes "encodes n L R t" "\<forall>c \<in> set (rspine t). 0 \<le> c \<and> c < int (length E)"
  shows "do { es \<leftarrow> wr E (root t) e; escape_walk n R e (root t) es } =
     Some (apply_writes (map (\<lambda>c. (c, e)) (rspine t)) E)"
proof -
  have sp: "rspine t = root t # tl (rspine t)" by (rule rspine_root)
  have "root t \<in> set (rspine t)" by (subst sp) simp
  then have rng: "0 \<le> root t \<and> root t < int (length E)" using assms(2) by simp
  have w: "wr E (root t) e = Some (E[nat (root t) := e])" using rng by (simp add: wr_def)
  have "\<forall>c \<in> set (rspine t). 0 \<le> c \<and> c < int (length (E[nat (root t) := e]))"
    using assms(2) by simp
  from escape_walk_spine[OF assms(1) this, where e = e]
  have "escape_walk n R e (root t) (E[nat (root t) := e]) =
      Some (apply_writes (map (\<lambda>c. (c, e)) (tl (rspine t))) (E[nat (root t) := e]))" .
  moreover have "map (\<lambda>c. (c, e)) (rspine t) = (root t, e) # map (\<lambda>c. (c, e)) (tl (rspine t))"
    by (subst sp) simp
  ultimately show ?thesis using w by (simp add: apply_writes_Cons)
qed


subsection \<open>Valid topologies\<close>

lemma valid_preorder_set:
  assumes "valid_topology N L R t"
  shows "set (preorder t) = {0..<2 * int N - 1}"
proof -
  have d: "distinct (preorder t)" and len: "length (preorder t) = 2 * N - 1"
    and rng: "\<forall>v \<in> set (preorder t). 0 \<le> v \<and> v < 2 * int N - 1" and N: "1 \<le> N"
    using assms by (simp_all add: valid_topology_def list_all_iff)
  have sub: "set (preorder t) \<subseteq> {0..<2 * int N - 1}" using rng by auto
  have "card (set (preorder t)) = 2 * N - 1" using d len by (simp add: distinct_card)
  moreover have "card {0..<2 * int N - 1} = 2 * N - 1" using N by simp
  ultimately show ?thesis using sub by (simp add: card_subset_eq)
qed

lemma find_distinct_map:
  "distinct (map f xs) \<Longrightarrow> x \<in> set xs \<Longrightarrow> find (\<lambda>y. f y = f x) xs = Some x"
  by (induction xs) force+

lemma valid_internal_subtree:
  assumes "valid_topology N L R t" "0 \<le> i" "i < int N - 1"
  shows "\<exists>l r. Nd i l r \<in> set (subtrees t)"
proof -
  have "i \<in> set (preorder t)" using valid_preorder_set[OF assms(1)] assms(2,3) by simp
  then have "i \<in> set (map root (subtrees t))" by (simp only: map_root_subtrees)
  then obtain s where s: "s \<in> set (subtrees t)" "root s = i" by auto
  have enc: "encodes (int N - 1) L R s"
    using assms(1) s(1) encodes_subtree by (simp add: valid_topology_def) blast
  show ?thesis
  proof (cases s)
    case (Lf k)
    with enc s(2) assms(3) show ?thesis by simp
  next
    case (Nd j l r)
    with s show ?thesis by auto
  qed
qed

lemma pairs_of_subtree:
  assumes "distinct (preorder t)" "Nd i l r \<in> set (subtrees t)"
  shows "pairs_of t i = map (\<lambda>c. (c, root r)) (rspine l)"
proof -
  have "distinct (map root (subtrees t))" using assms(1) by (simp only: map_root_subtrees)
  from find_distinct_map[OF this assms(2)]
  have "find (\<lambda>s. root s = i) (subtrees t) = Some (Nd i l r)" by simp
  then show ?thesis by (simp add: pairs_of_def)
qed

lemma escape_thread_effect:
  assumes v: "valid_topology N L R t" and len: "length E = 2 * N - 1"
    and tid: "0 \<le> tid" "tid < int N"
  shows "assign_escape_indices_kernel (int N - 1) L R tid E =
     Some (apply_writes (thread_writes N t tid) E)"
proof -
  have ps: "set (preorder t) = {0..<2 * int N - 1}" by (rule valid_preorder_set[OF v])
  have enc: "encodes (int N - 1) L R t" and d: "distinct (preorder t)" and r0: "root t = 0"
    and N: "1 \<le> N"
    using v by (simp_all add: valid_topology_def)
  have inrange: "\<forall>c \<in> set (rspine s). 0 \<le> c \<and> c < int (length E)"
    if "s \<in> set (subtrees t)" for s
  proof
    fix c assume "c \<in> set (rspine s)"
    then have "c \<in> set (preorder t)"
      using rspine_subset[of s] subtree_preorder_subset[OF that] by blast
    then show "0 \<le> c \<and> c < int (length E)" using ps len N by auto
  qed
  show ?thesis
  proof (cases "tid < int N - 1")
    case True
    from valid_internal_subtree[OF v tid(1) True] obtain l r
      where s: "Nd tid l r \<in> set (subtrees t)" by blast
    have e: "encodes (int N - 1) L R (Nd tid l r)" by (rule encodes_subtree[OF enc s])
    then have rl: "rd L tid = Some (root l)" and rr: "rd R tid = Some (root r)"
      and el: "encodes (int N - 1) L R l" by simp_all
    have "l \<in> set (subtrees (Nd tid l r))" by (cases l) simp_all
    then have "set (rspine l) \<subseteq> set (preorder (Nd tid l r))"
      using rspine_subset[of l] by auto
    then have "set (rspine l) \<subseteq> set (preorder t)"
      using subtree_preorder_subset[OF s] by blast
    then have rng: "\<forall>c \<in> set (rspine l). 0 \<le> c \<and> c < int (length E)"
      using ps len N by auto
    have "assign_escape_indices_kernel (int N - 1) L R tid E =
        do { es \<leftarrow> wr E (root l) (root r); escape_walk (int N - 1) R (root r) (root l) es }"
      using True rl rr by (simp add: assign_escape_indices_kernel_def)
    also have "\<dots> = Some (apply_writes (map (\<lambda>c. (c, root r)) (rspine l)) E)"
      by (rule escape_thread_spine[OF el rng])
    finally show ?thesis
      using True pairs_of_subtree[OF d s] by (simp add: thread_writes_def)
  next
    case False
    have "t \<in> set (subtrees t)" by (cases t) simp_all
    from inrange[OF this] have rng: "\<forall>c \<in> set (rspine t). 0 \<le> c \<and> c < int (length E)" .
    have "assign_escape_indices_kernel (int N - 1) L R tid E =
        do { es \<leftarrow> wr E (root t) (- 1); escape_walk (int N - 1) R (- 1) (root t) es }"
      using False r0 by (simp add: assign_escape_indices_kernel_def)
    also have "\<dots> = Some (apply_writes (map (\<lambda>c. (c, - 1)) (rspine t)) E)"
      by (rule escape_thread_spine[OF enc rng])
    finally show ?thesis using False by (simp add: thread_writes_def)
  qed
qed

lemma run_threads_writes:
  assumes "\<And>tid E. tid \<in> set order \<Longrightarrow> length E = m \<Longrightarrow> k tid E = Some (apply_writes (w tid) E)"
    and "length E = m"
  shows "run_threads k order E = Some (apply_writes (concat (map w order)) E)"
  using assms
proof (induction order arbitrary: E)
  case Nil
  then show ?case by (simp add: apply_writes_Nil)
next
  case (Cons a order)
  have "k a E = Some (apply_writes (w a) E)" using Cons.prems by simp
  moreover have "run_threads k order (apply_writes (w a) E) =
      Some (apply_writes (concat (map w order)) (apply_writes (w a) E))"
    using Cons.prems by (intro Cons.IH) (simp_all add: length_apply_writes)
  ultimately show ?case by (simp add: apply_writes_append)
qed


lemma thread_writes_sound:
  assumes v: "valid_topology N L R t" and p: "p \<in> set (thread_writes N t tid)"
  shows "p \<in> set (escs t (- 1))"
proof (cases "tid < int N - 1")
  case False
  with p obtain c where "c \<in> set (rspine t)" "p = (c, - 1)"
    by (auto simp: thread_writes_def)
  then show ?thesis using escs_spine by blast
next
  case True
  with p have pp: "p \<in> set (pairs_of t tid)" by (simp add: thread_writes_def)
  show ?thesis
  proof (cases "find (\<lambda>s. root s = tid) (subtrees t)")
    case None
    with pp show ?thesis by (simp add: pairs_of_def)
  next
    case (Some s)
    then have mem: "s \<in> set (subtrees t)" by (auto simp: find_Some_iff)
    show ?thesis
    proof (cases s)
      case (Lf k)
      with Some pp show ?thesis by (simp add: pairs_of_def)
    next
      case (Nd j l r)
      with Some pp obtain c where "c \<in> set (rspine l)" "p = (c, root r)"
        by (auto simp: pairs_of_def)
      then show ?thesis using escs_left_spine mem Nd by blast
    qed
  qed
qed

lemma thread_writes_complete:
  assumes v: "valid_topology N L R t" and p: "p \<in> set (escs t (- 1))"
  shows "\<exists>tid. 0 \<le> tid \<and> tid < int N \<and> p \<in> set (thread_writes N t tid)"
proof -
  obtain c e' where ce: "p = (c, e')" by (cases p)
  have enc: "encodes (int N - 1) L R t" and d: "distinct (preorder t)" and N: "1 \<le> N"
    using v by (simp_all add: valid_topology_def)
  from escs_cases[of c e' t "- 1"] p ce
  consider "c \<in> set (rspine t)" "e' = - 1"
    | i l r where "Nd i l r \<in> set (subtrees t)" "c \<in> set (rspine l)" "e' = root r"
    by blast
  then show ?thesis
  proof cases
    case 1
    then have "p \<in> set (thread_writes N t (int N - 1))"
      using ce by (simp add: thread_writes_def)
    moreover have "0 \<le> int N - 1" "int N - 1 < int N" using N by simp_all
    ultimately show ?thesis by blast
  next
    case 2
    have "encodes (int N - 1) L R (Nd i l r)" by (rule encodes_subtree[OF enc 2(1)])
    then have i: "0 \<le> i" "i < int N - 1" by simp_all
    have "p \<in> set (thread_writes N t i)"
      using i pairs_of_subtree[OF d 2(1)] 2(2,3) ce by (simp add: thread_writes_def)
    with i show ?thesis by force
  qed
qed

lemma escs_functional:
  assumes "distinct (preorder t)" "(c, a) \<in> set (escs t e)" "(c, b) \<in> set (escs t e)"
  shows "a = b"
proof -
  have "distinct (map fst (escs t e))" using assms(1) by (simp only: map_fst_escs)
  then show ?thesis using assms(2,3) by (rule eq_key_imp_eq_value)
qed

lemma escape_final_value:
  assumes v: "valid_topology N L R t" and len: "length E = 2 * N - 1"
    and order: "set order = {0..<int N}"
    and p: "(c, e) \<in> set (escs t (- 1))"
  shows "apply_writes (concat (map (thread_writes N t) order)) E ! nat c = e"
proof (rule apply_writes_value)
  have d: "distinct (preorder t)" and N: "1 \<le> N"
    using v by (simp_all add: valid_topology_def)
  have ps: "set (preorder t) = {0..<2 * int N - 1}" by (rule valid_preorder_set[OF v])
  have sound: "q \<in> set (escs t (- 1))"
    if "q \<in> set (concat (map (thread_writes N t) order))" for q
  proof -
    from that obtain tid where "q \<in> set (thread_writes N t tid)" by auto
    then show ?thesis by (rule thread_writes_sound[OF v])
  qed
  from thread_writes_complete[OF v p] obtain tid
    where "0 \<le> tid" "tid < int N" "(c, e) \<in> set (thread_writes N t tid)" by blast
  moreover from this order have "tid \<in> set order" by simp
  ultimately show "(c, e) \<in> set (concat (map (thread_writes N t) order))" by auto
  show "\<forall>q \<in> set (concat (map (thread_writes N t) order)). 0 \<le> fst q"
  proof
    fix q assume "q \<in> set (concat (map (thread_writes N t) order))"
    then have "q \<in> set (escs t (- 1))" by (rule sound)
    then have "fst q \<in> set (map fst (escs t (- 1)))" by simp
    then have "fst q \<in> set (preorder t)" by (simp only: map_fst_escs)
    then show "0 \<le> fst q" using ps by simp
  qed
  show "\<forall>e'. (c, e') \<in> set (concat (map (thread_writes N t) order)) \<longrightarrow> e' = e"
    using sound escs_functional[OF d _ p] by blast
  have "fst (c, e) \<in> fst ` set (escs t (- 1))" using p by (rule imageI)
  then have "c \<in> set (map fst (escs t (- 1)))" by simp
  then have "c \<in> set (preorder t)" by (simp only: map_fst_escs)
  then show "nat c < length E" using ps len N by auto
qed

subsection \<open>Stackless traversal\<close>

lemma dfs_walk_tree:
  assumes "encodes n L R t" "\<forall>p \<in> set (escs t e). rd E (fst p) = Some (snd p)"
    "- 1 \<notin> set (preorder t)"
  shows "dfs_walk n L E (root t) acc = dfs_walk n L E e (rev (preorder t) @ acc)"
  using assms
proof (induction t arbitrary: e acc)
  case (Lf k)
  then have "k \<noteq> - 1" "\<not> k < n" "rd E k = Some e" by auto
  then show ?case by (subst dfs_walk.simps) simp
next
  case (Nd i l r)
  have i: "i \<noteq> - 1" "i < n" "rd L i = Some (root l)" using Nd.prems(1,3) by auto
  have l: "dfs_walk n L E (root l) (i # acc) = dfs_walk n L E (root r) (rev (preorder l) @ i # acc)"
    using Nd.prems by (intro Nd.IH(1)) auto
  have r: "dfs_walk n L E (root r) (rev (preorder l) @ i # acc) =
      dfs_walk n L E e (rev (preorder r) @ rev (preorder l) @ i # acc)"
    using Nd.prems by (intro Nd.IH(2)) auto
  have "dfs_walk n L E (root (Nd i l r)) acc = dfs_walk n L E (root l) (i # acc)"
    using i by (subst dfs_walk.simps) simp
  with l r show ?case by simp
qed


lemma escape_run:
  assumes v: "valid_topology N L R t" and len: "length E = 2 * N - 1"
    and order: "set order = {0..<int N}"
  shows "run_threads (assign_escape_indices_kernel (int N - 1) L R) order E =
     Some (apply_writes (concat (map (thread_writes N t) order)) E)"
proof (rule run_threads_writes[where m = "2 * N - 1"])
  fix tid E' assume "tid \<in> set order" "length (E' :: int list) = 2 * N - 1"
  then show "assign_escape_indices_kernel (int N - 1) L R tid E' =
      Some (apply_writes (thread_writes N t tid) E')"
    using escape_thread_effect[OF v] order by simp
qed (rule len)

lemma escape_result_unique:
  assumes v: "valid_topology N L R t" and len: "length E = 2 * N - 1" "length E' = 2 * N - 1"
    and val: "\<And>c e. (c, e) \<in> set (escs t (- 1)) \<Longrightarrow> E ! nat c = e"
        "\<And>c e. (c, e) \<in> set (escs t (- 1)) \<Longrightarrow> E' ! nat c = e"
  shows "E = E'"
proof (rule nth_equalityI)
  show "length E = length E'" using len by simp
  fix i assume "i < length E"
  then have "int i \<in> set (preorder t)" using valid_preorder_set[OF v] len by auto
  then have "int i \<in> set (map fst (escs t (- 1)))" by (simp only: map_fst_escs)
  then obtain e where "(int i, e) \<in> set (escs t (- 1))" by auto
  from val(1)[OF this] val(2)[OF this] show "E ! i = E' ! i" by simp
qed

text \<open>
  C3. On a valid topology, whatever the order in which the \<open>N\<close> threads of the escape-index
  kernel run, the result is the one of the launch; for every node (the root of a subtree
  \<open>s\<close>) the escape entry is the node that follows \<open>s\<close> in the depth-first order, and \<open>-1\<close>
  when nothing follows; the entry is \<open>-1\<close> exactly on the right spine of the root; and the
  stackless walk that starts at node 0, goes to the left child at an internal node and to the
  escape entry at a leaf, visits the depth-first order, which holds each of the \<open>2N - 1\<close>
  nodes once, and stops at \<open>-1\<close>.
\<close>

theorem assign_escape_indices_dfs:
  assumes v: "valid_topology N L R t" and len: "length E = 2 * N - 1"
    and order: "set order = {0..<int N}"
  shows "\<exists>E'. run_threads (assign_escape_indices_kernel (int N - 1) L R) order E = Some E' \<and>
     launch (assign_escape_indices_kernel (int N - 1) L R) N E = Some E' \<and>
     length E' = 2 * N - 1 \<and>
     (\<forall>s pre post. s \<in> set (subtrees t) \<and> preorder t = pre @ preorder s @ post \<longrightarrow>
        E' ! nat (root s) = (case post of [] \<Rightarrow> - 1 | w # _ \<Rightarrow> w)) \<and>
     (\<forall>x \<in> set (preorder t). (E' ! nat x = - 1) = (x \<in> set (rspine t))) \<and>
     dfs_walk (int N - 1) L E' 0 [] = Some (preorder t) \<and>
     distinct (preorder t) \<and> set (preorder t) = {0..<2 * int N - 1}"
proof -
  let ?k = "assign_escape_indices_kernel (int N - 1) L R"
  let ?E = "apply_writes (concat (map (thread_writes N t) order)) E"
  let ?F = "apply_writes (concat (map (thread_writes N t) (map int [0..<N]))) E"
  have d: "distinct (preorder t)" and N: "1 \<le> N" and r0: "root t = 0"
    and enc: "encodes (int N - 1) L R t"
    using v by (simp_all add: valid_topology_def)
  have ps: "set (preorder t) = {0..<2 * int N - 1}" by (rule valid_preorder_set[OF v])
  have run: "run_threads ?k order E = Some ?E" by (rule escape_run[OF v len order])
  have tids: "set (map int [0..<N]) = {0..<int N}"
    by (auto simp: image_iff) (metis atLeastLessThan_iff nat_0_le nat_less_iff zero_le)
  have "launch ?k N E = Some ?F"
    unfolding launch_def by (rule escape_run[OF v len tids])
  have lenE: "length ?E = 2 * N - 1" "length ?F = 2 * N - 1"
    using len by (simp_all add: length_apply_writes)
  have val: "?E ! nat c = e" if "(c, e) \<in> set (escs t (- 1))" for c e
    by (rule escape_final_value[OF v len order that])
  have valF: "?F ! nat c = e" if "(c, e) \<in> set (escs t (- 1))" for c e
    by (rule escape_final_value[OF v len tids that])
  have same: "?F = ?E" by (rule escape_result_unique[OF v lenE(2,1) valF val])
  have after: "\<forall>s pre post. s \<in> set (subtrees t) \<and> preorder t = pre @ preorder s @ post \<longrightarrow>
        ?E ! nat (root s) = (case post of [] \<Rightarrow> - 1 | w # _ \<Rightarrow> w)"
  proof (intro allI impI)
    fix s pre post
    assume a: "s \<in> set (subtrees t) \<and> preorder t = pre @ preorder s @ post"
    from escs_after_subtree[of s t "- 1"] a obtain pre' post' where
      p: "preorder t = pre' @ preorder s @ post'"
      and m: "(root s, (case post' of [] \<Rightarrow> - 1 | w # _ \<Rightarrow> w)) \<in> set (escs t (- 1))"
      by blast
    have "post' = post" using preorder_split_unique[OF d p] a by blast
    with val[OF m] show "?E ! nat (root s) = (case post of [] \<Rightarrow> - 1 | w # _ \<Rightarrow> w)" by simp
  qed
  have spine: "\<forall>x \<in> set (preorder t). (?E ! nat x = - 1) = (x \<in> set (rspine t))"
  proof
    fix x assume x: "x \<in> set (preorder t)"
    then have "x \<in> set (map fst (escs t (- 1)))" by (simp only: map_fst_escs)
    then obtain e where e: "(x, e) \<in> set (escs t (- 1))" by auto
    show "(?E ! nat x = - 1) = (x \<in> set (rspine t))"
    proof
      assume "?E ! nat x = - 1"
      with val[OF e] have e1: "e = - 1" by simp
      from escs_cases[OF e] consider "x \<in> set (rspine t)"
        | i l r where "Nd i l r \<in> set (subtrees t)" "e = root r" by blast
      then show "x \<in> set (rspine t)"
      proof cases
        case 2
        have "root r \<in> set (preorder (Nd i l r))" by (cases r) simp_all
        then have "root r \<in> set (preorder t)" using subtree_preorder_subset[OF 2(1)] by blast
        with ps e1 2(2) show ?thesis by simp
      qed
    next
      assume "x \<in> set (rspine t)"
      then have "(x, - 1) \<in> set (escs t (- 1))" by (rule escs_spine)
      then show "?E ! nat x = - 1" by (rule val)
    qed
  qed
  have walk: "dfs_walk (int N - 1) L ?E 0 [] = Some (preorder t)"
  proof -
    have rdE: "\<forall>p \<in> set (escs t (- 1)). rd ?E (fst p) = Some (snd p)"
    proof
      fix p assume p: "p \<in> set (escs t (- 1))"
      then have "fst p \<in> set (map fst (escs t (- 1)))" by simp
      then have "fst p \<in> set (preorder t)" by (simp only: map_fst_escs)
      then have "0 \<le> fst p" "fst p < int (length ?E)" using ps lenE N by auto
      moreover have "?E ! nat (fst p) = snd p" using val[of "fst p" "snd p"] p by simp
      ultimately show "rd ?E (fst p) = Some (snd p)" by (simp add: rd_def)
    qed
    have "- 1 \<notin> set (preorder t)" using ps by simp
    from dfs_walk_tree[OF enc rdE this, of "[]"] r0
    have "dfs_walk (int N - 1) L ?E 0 [] = dfs_walk (int N - 1) L ?E (- 1) (rev (preorder t))"
      by simp
    also have "\<dots> = Some (preorder t)" by (subst dfs_walk.simps) simp
    finally show ?thesis .
  qed
  from run \<open>launch ?k N E = Some ?F\<close> same lenE(1) after spine walk d ps
  show ?thesis by simp
qed


theorem assign_escape_indices_dfs_witness:
  "valid_topology 3 [1, 2] [4, 3] (Nd 0 (Nd 1 (Lf 2) (Lf 3)) (Lf 4)) \<and>
   length [0, 0, 0, 0, 0 :: int] = 2 * 3 - 1 \<and> set [2, 0, 1] = {0..<int 3} \<and>
   run_threads (assign_escape_indices_kernel (int 3 - 1) [1, 2] [4, 3]) [2, 0, 1] [0, 0, 0, 0, 0]
     = Some [- 1, 4, 3, 4, - 1] \<and>
   launch (assign_escape_indices_kernel (int 3 - 1) [1, 2] [4, 3]) 3 [0, 0, 0, 0, 0]
     = Some [- 1, 4, 3, 4, - 1] \<and>
   dfs_walk (int 3 - 1) [1, 2] [- 1, 4, 3, 4, - 1] 0 [] = Some [0, 1, 2, 3, 4]"
proof -
  have v: "valid_topology 3 [1, 2] [4, 3] (Nd 0 (Nd 1 (Lf 2) (Lf 3)) (Lf 4))"
    by (simp add: valid_topology_def rd_def)
  have len: "length [0, 0, 0, 0, 0 :: int] = 2 * 3 - 1" by simp
  have order: "set [2, 0, 1] = {0..<int 3}" by auto
  have run: "run_threads (assign_escape_indices_kernel (int 3 - 1) [1, 2] [4, 3]) [2, 0, 1]
      [0, 0, 0, 0, 0] = Some [- 1, 4, 3, 4, - 1]" by code_simp
  from assign_escape_indices_dfs[OF v len order] run
  have "launch (assign_escape_indices_kernel (int 3 - 1) [1, 2] [4, 3]) 3 [0, 0, 0, 0, 0]
     = Some [- 1, 4, 3, 4, - 1] \<and>
   dfs_walk (int 3 - 1) [1, 2] [- 1, 4, 3, 4, - 1] 0 [] = Some [0, 1, 2, 3, 4]"
    by auto
  with v len order run show ?thesis by blast
qed

theorem escape_last_thread_counterexample:
  "assign_escape_indices_kernel 1 [1] [2] 1 [0, 0, 0] = Some [- 1, 0, - 1] \<and>
   [- 1, 0, - 1] \<noteq> [0, 0, 0 :: int]"
  by (simp add: assign_escape_indices_kernel_def escape_walk.simps rd_def wr_def)


lemma pairs_of_cases:
  assumes "p \<in> set (pairs_of t i)"
  shows "\<exists>j l r. Nd j l r \<in> set (subtrees t) \<and> fst p \<in> set (rspine l) \<and> snd p = root r"
proof (cases "find (\<lambda>s. root s = i) (subtrees t)")
  case None
  with assms show ?thesis by (simp add: pairs_of_def)
next
  case (Some s)
  then have mem: "s \<in> set (subtrees t)" by (auto simp: find_Some_iff)
  show ?thesis
  proof (cases s)
    case (Lf k)
    with Some assms show ?thesis by (simp add: pairs_of_def)
  next
    case (Nd j l r)
    with Some assms have "fst p \<in> set (rspine l) \<and> snd p = root r"
      by (auto simp: pairs_of_def)
    with mem Nd show ?thesis by blast
  qed
qed

lemma inner_thread_keeps_root:
  assumes v: "valid_topology N L R t" and tid: "tid < int N - 1"
    and p: "p \<in> set (thread_writes N t tid)"
  shows "nat (fst p) \<noteq> 0"
proof -
  have d: "distinct (preorder t)" and r0: "root t = 0"
    using v by (simp_all add: valid_topology_def)
  have ps: "set (preorder t) = {0..<2 * int N - 1}" by (rule valid_preorder_set[OF v])
  from p tid have "p \<in> set (pairs_of t tid)" by (simp add: thread_writes_def)
  from pairs_of_cases[OF this] obtain j l r where
    s: "Nd j l r \<in> set (subtrees t)" and sp: "snd p = root r" by blast
  have "root r \<in> set (preorder (Nd j l r))" by (cases r) simp_all
  then have "root r \<in> set (preorder t)" using subtree_preorder_subset[OF s] by blast
  then have nonneg: "0 \<le> snd p" using ps sp by simp
  have mem: "(fst p, snd p) \<in> set (escs t (- 1))"
    using thread_writes_sound[OF v p] by simp
  then have "fst p \<in> set (map fst (escs t (- 1)))" by force
  then have "fst p \<in> set (preorder t)" by (simp only: map_fst_escs)
  then have f0: "0 \<le> fst p" using ps by simp
  have "fst p \<noteq> 0"
  proof
    assume z: "fst p = 0"
    have "0 \<in> set (rspine t)" using rspine_root[of t] r0 by (metis list.set_intros(1))
    then have "(0, - 1) \<in> set (escs t (- 1))" by (rule escs_spine)
    with mem z have "snd p = - 1" using escs_functional[OF d] by metis
    with nonneg show False by simp
  qed
  with f0 show ?thesis by simp
qed

text \<open>
  C9 as the code has it. The launch has \<open>N\<close> threads and \<open>N - 1\<close> internal nodes, so exactly
  one thread, \<open>tid = N - 1\<close>, takes the default \<open>current_index = 0\<close>, \<open>escape_index = -1\<close>: it
  stores \<open>-1\<close> at the root and at every node of the root's right spine. Whatever the array
  held before (the constructor fills it with zeros), the root's \<open>-1\<close> is this store; the
  threads of the internal nodes leave the root's entry as it was.
\<close>

theorem escape_last_thread_writes_root_spine:
  assumes v: "valid_topology N L R t" and len: "length E = 2 * N - 1"
  shows "assign_escape_indices_kernel (int N - 1) L R (int N - 1) E =
       Some (apply_writes (map (\<lambda>c. (c, - 1)) (rspine t)) E) \<and>
     apply_writes (map (\<lambda>c. (c, - 1)) (rspine t)) E ! 0 = - 1 \<and>
     (\<forall>tid. 0 \<le> tid \<and> tid < int N - 1 \<longrightarrow>
        (\<exists>E1. assign_escape_indices_kernel (int N - 1) L R tid E = Some E1 \<and> E1 ! 0 = E ! 0))"
proof -
  have N: "1 \<le> N" and r0: "root t = 0" using v by (simp_all add: valid_topology_def)
  have ps: "set (preorder t) = {0..<2 * int N - 1}" by (rule valid_preorder_set[OF v])
  have last: "assign_escape_indices_kernel (int N - 1) L R (int N - 1) E =
       Some (apply_writes (thread_writes N t (int N - 1)) E)"
    using N by (intro escape_thread_effect[OF v len]) simp_all
  have tw: "thread_writes N t (int N - 1) = map (\<lambda>c. (c, - 1)) (rspine t)"
    by (simp add: thread_writes_def)
  have "apply_writes (map (\<lambda>c. (c, - 1)) (rspine t)) E ! nat 0 = - 1"
  proof (rule apply_writes_value)
    have "0 \<in> set (rspine t)" using rspine_root[of t] r0 by (metis list.set_intros(1))
    then show "(0, - 1) \<in> set (map (\<lambda>c. (c, - 1)) (rspine t))" by auto
    show "\<forall>p \<in> set (map (\<lambda>c. (c, - 1)) (rspine t)). 0 \<le> fst p"
      using rspine_subset[of t] ps by auto
    show "\<forall>e'. (0, e') \<in> set (map (\<lambda>c. (c, - 1)) (rspine t)) \<longrightarrow> e' = - 1" by auto
    show "nat 0 < length E" using len N by simp
  qed
  then have root: "apply_writes (map (\<lambda>c. (c, - 1)) (rspine t)) E ! 0 = - 1" by simp
  have inner: "\<forall>tid. 0 \<le> tid \<and> tid < int N - 1 \<longrightarrow>
        (\<exists>E1. assign_escape_indices_kernel (int N - 1) L R tid E = Some E1 \<and> E1 ! 0 = E ! 0)"
  proof (intro allI impI)
    fix tid assume t: "0 \<le> tid \<and> tid < int N - 1"
    then have "assign_escape_indices_kernel (int N - 1) L R tid E =
        Some (apply_writes (thread_writes N t tid) E)"
      by (intro escape_thread_effect[OF v len]) simp_all
    moreover have "apply_writes (thread_writes N t tid) E ! 0 = E ! 0"
      using inner_thread_keeps_root[OF v] t by (intro apply_writes_frame) blast
    ultimately show "\<exists>E1. assign_escape_indices_kernel (int N - 1) L R tid E = Some E1 \<and>
        E1 ! 0 = E ! 0" by simp
  qed
  from last tw root inner show ?thesis by simp
qed

theorem escape_last_thread_writes_root_spine_witness:
  "valid_topology 3 [1, 2] [4, 3] (Nd 0 (Nd 1 (Lf 2) (Lf 3)) (Lf 4)) \<and>
   length [0, 0, 0, 0, 0 :: int] = 2 * 3 - 1 \<and>
   assign_escape_indices_kernel (int 3 - 1) [1, 2] [4, 3] (int 3 - 1) [0, 0, 0, 0, 0] =
     Some [- 1, 0, 0, 0, - 1] \<and>
   (\<exists>E1. assign_escape_indices_kernel (int 3 - 1) [1, 2] [4, 3] 1 [0, 0, 0, 0, 0] = Some E1 \<and>
      E1 ! 0 = [0, 0, 0, 0, 0 :: int] ! 0)"
proof -
  have v: "valid_topology 3 [1, 2] [4, 3] (Nd 0 (Nd 1 (Lf 2) (Lf 3)) (Lf 4))"
    by (simp add: valid_topology_def rd_def)
  have len: "length [0, 0, 0, 0, 0 :: int] = 2 * 3 - 1" by simp
  from escape_last_thread_writes_root_spine[OF v len]
  have "assign_escape_indices_kernel (int 3 - 1) [1, 2] [4, 3] (int 3 - 1) [0, 0, 0, 0, 0] =
     Some [- 1, 0, 0, 0, - 1]"
    and "\<exists>E1. assign_escape_indices_kernel (int 3 - 1) [1, 2] [4, 3] 1 [0, 0, 0, 0, 0] = Some E1 \<and>
      E1 ! 0 = [0, 0, 0, 0, 0 :: int] ! 0"
    by (simp_all add: apply_writes_def)
  with v len show ?thesis by blast
qed

subsection \<open>Bottom-up boxes: subtrees\<close>

lemma subtrees_self: "t \<in> set (subtrees t)"
  by (cases t) simp_all

lemma subtrees_trans: "s \<in> set (subtrees t) \<Longrightarrow> u \<in> set (subtrees s) \<Longrightarrow> u \<in> set (subtrees t)"
  by (induction t) auto

lemma root_in_preorder: "root s \<in> set (preorder s)"
  by (cases s) simp_all

lemma distinct_subtree: "distinct (preorder t) \<Longrightarrow> s \<in> set (subtrees t) \<Longrightarrow> distinct (preorder s)"
  by (induction t) auto

lemma subtree_root_unique:
  assumes "distinct (preorder t)" "s1 \<in> set (subtrees t)" "s2 \<in> set (subtrees t)"
    "root s1 = root s2"
  shows "s1 = s2"
proof -
  have "distinct (map root (subtrees t))" using assms(1) by (simp only: map_root_subtrees)
  then have "inj_on root (set (subtrees t))" by (simp add: distinct_map)
  then show ?thesis using assms(2-4) by (simp add: inj_on_def)
qed

lemma subtree_closure:
  assumes d: "distinct (preorder t)" and s: "s \<in> set (subtrees t)" and u: "u \<in> set (subtrees t)"
    and r: "root u \<in> set (preorder s)"
  shows "u \<in> set (subtrees s)"
proof -
  from r have "root u \<in> set (map root (subtrees s))" by (simp only: map_root_subtrees)
  then obtain u' where u': "u' \<in> set (subtrees s)" "root u' = root u" by auto
  have "u' \<in> set (subtrees t)" by (rule subtrees_trans[OF s u'(1)])
  from subtree_root_unique[OF d this u u'(2)] u'(1) show ?thesis by simp
qed

lemma subtree_laminar:
  assumes "distinct (preorder t)" "s1 \<in> set (subtrees t)" "s2 \<in> set (subtrees t)"
    "x \<in> set (preorder s1)" "x \<in> set (preorder s2)"
  shows "s1 \<in> set (subtrees s2) \<or> s2 \<in> set (subtrees s1)"
proof -
  have "root s1 \<in> set (preorder s2) \<or> root s2 \<in> set (preorder s1)"
    using assms
  proof (induction t)
    case (Lf k)
    then show ?case by (auto simp: root_in_preorder)
  next
    case (Nd i l r)
    have dl: "distinct (preorder l)" and dr: "distinct (preorder r)"
      and disj: "set (preorder l) \<inter> set (preorder r) = {}"
      using Nd.prems(1) by auto
    consider "s1 = Nd i l r" | "s2 = Nd i l r"
      | "s1 \<in> set (subtrees l)" "s2 \<in> set (subtrees l)"
      | "s1 \<in> set (subtrees r)" "s2 \<in> set (subtrees r)"
      | "s1 \<in> set (subtrees l)" "s2 \<in> set (subtrees r)"
      | "s1 \<in> set (subtrees r)" "s2 \<in> set (subtrees l)"
      using Nd.prems(2,3) by auto
    then show ?case
    proof cases
      case 1
      have "root s2 \<in> set (preorder s2)" by (rule root_in_preorder)
      then have "root s2 \<in> set (preorder (Nd i l r))"
        using subtree_preorder_subset[OF Nd.prems(3)] by blast
      with 1 show ?thesis by simp
    next
      case 2
      have "root s1 \<in> set (preorder s1)" by (rule root_in_preorder)
      then have "root s1 \<in> set (preorder (Nd i l r))"
        using subtree_preorder_subset[OF Nd.prems(2)] by blast
      with 2 show ?thesis by simp
    next
      case 3
      then show ?thesis using Nd.IH(1)[OF dl] Nd.prems(4,5) by blast
    next
      case 4
      then show ?thesis using Nd.IH(2)[OF dr] Nd.prems(4,5) by blast
    next
      case 5
      then have "x \<in> set (preorder l)" "x \<in> set (preorder r)"
        using Nd.prems(4,5) subtree_preorder_subset by blast+
      with disj show ?thesis by blast
    next
      case 6
      then have "x \<in> set (preorder l)" "x \<in> set (preorder r)"
        using Nd.prems(4,5) subtree_preorder_subset by blast+
      with disj show ?thesis by blast
    qed
  qed
  then show ?thesis
    using subtree_closure[OF assms(1)] assms(2,3) by blast
qed

lemma subtree_size: "u \<in> set (subtrees s) \<Longrightarrow> u = s \<or> size u < size s"
  by (induction s) auto

lemma subtree_antisym:
  assumes "u \<in> set (subtrees s)" "s \<in> set (subtrees u)"
  shows "u = s"
proof -
  from subtree_size[OF assms(1)] subtree_size[OF assms(2)]
  show ?thesis by auto
qed

lemma subtree_parent:
  "s \<in> set (subtrees t) \<Longrightarrow> s \<noteq> t \<Longrightarrow>
     \<exists>p l r. Nd p l r \<in> set (subtrees t) \<and> (l = s \<or> r = s)"
proof (induction t)
  case (Lf k)
  then show ?case by simp
next
  case (Nd i l r)
  from Nd.prems consider "s \<in> set (subtrees l)" | "s \<in> set (subtrees r)" by auto
  then show ?case
  proof cases
    case 1
    show ?thesis
    proof (cases "s = l")
      case True
      have "Nd i l r \<in> set (subtrees (Nd i l r))" by simp
      with True show ?thesis by blast
    next
      case False
      from Nd.IH(1)[OF 1 False] obtain p a b where
        "Nd p a b \<in> set (subtrees l)" "a = s \<or> b = s" by blast
      then have "Nd p a b \<in> set (subtrees (Nd i l r))" "a = s \<or> b = s" by simp_all
      then show ?thesis by blast
    qed
  next
    case 2
    show ?thesis
    proof (cases "s = r")
      case True
      have "Nd i l r \<in> set (subtrees (Nd i l r))" by simp
      with True show ?thesis by blast
    next
      case False
      from Nd.IH(2)[OF 2 False] obtain p a b where
        "Nd p a b \<in> set (subtrees r)" "a = s \<or> b = s" by blast
      then have "Nd p a b \<in> set (subtrees (Nd i l r))" "a = s \<or> b = s" by simp_all
      then show ?thesis by blast
    qed
  qed
qed

lemma subtree_children:
  assumes "Nd p l r \<in> set (subtrees t)"
  shows "l \<in> set (subtrees t)" "r \<in> set (subtrees t)"
proof -
  have "l \<in> set (subtrees (Nd p l r))" "r \<in> set (subtrees (Nd p l r))"
    by (simp_all add: subtrees_self)
  then show "l \<in> set (subtrees t)" "r \<in> set (subtrees t)"
    using subtrees_trans[OF assms] by blast+
qed

lemma subtree_children_distinct:
  assumes "distinct (preorder t)" "Nd p l r \<in> set (subtrees t)"
  shows "set (preorder l) \<inter> set (preorder r) = {}" "p \<notin> set (preorder l)"
    "p \<notin> set (preorder r)" "root l \<noteq> root r" "root l \<noteq> p" "root r \<noteq> p"
proof -
  have d: "distinct (preorder (Nd p l r))" by (rule distinct_subtree[OF assms])
  then show a: "set (preorder l) \<inter> set (preorder r) = {}" and b: "p \<notin> set (preorder l)"
    and c: "p \<notin> set (preorder r)" by auto
  show "root l \<noteq> root r" using a root_in_preorder[of l] root_in_preorder[of r] by fastforce
  show "root l \<noteq> p" using b root_in_preorder[of l] by fastforce
  show "root r \<noteq> p" using c root_in_preorder[of r] by fastforce
qed

lemma insideI:
  assumes "x < length ths" "t_pc (ths ! x) \<noteq> Start" "s \<in> set (subtrees t)"
    "root s = t_current (ths ! x)" "v \<in> set (preorder s)"
  shows "inside t ths v"
  using assms unfolding inside_def by blast

lemma inv_frontD1:
  assumes "inv_front N t ths" "x < N" "y < N" "x \<noteq> y" "t_pc (ths ! y) \<noteq> Start"
    "t_pc (ths ! x) \<noteq> Returned" "s \<in> set (subtrees t)" "root s = t_current (ths ! y)"
  shows "cur_node N x (ths ! x) \<notin> set (preorder s)"
  using assms unfolding inv_front_def by blast

lemma inv_frontD2:
  assumes "inv_front N t ths" "x < N" "y < N" "x \<noteq> y" "t_pc (ths ! y) \<noteq> Start"
    "t_pc (ths ! x) \<noteq> Start"
  shows "t_current (ths ! x) \<noteq> t_current (ths ! y)"
  using assms unfolding inv_front_def by blast

subsection \<open>Parents\<close>

lemma valid_bvh_encodes:
  assumes "valid_bvh N L R P t" "s \<in> set (subtrees t)"
  shows "encodes (int N - 1) L R s"
proof -
  have "encodes (int N - 1) L R t" using assms(1) by (simp add: valid_bvh_def valid_topology_def)
  then show ?thesis using assms(2) by (rule encodes_subtree)
qed

lemma valid_bvh_parent:
  assumes v: "valid_bvh N L R P t" and s: "s \<in> set (subtrees t)" and ne: "s \<noteq> t"
  shows "\<exists>p l r. Nd p l r \<in> set (subtrees t) \<and> (l = s \<or> r = s) \<and> rd P (root s) = Some p \<and>
           0 \<le> p \<and> p < int N - 1"
proof -
  from subtree_parent[OF s ne] obtain p l r where
    n: "Nd p l r \<in> set (subtrees t)" and lr: "l = s \<or> r = s" by blast
  have "rd P (root l) = Some p \<and> rd P (root r) = Some p"
    using v n by (auto simp: valid_bvh_def list_all_iff)
  then have "rd P (root s) = Some p" using lr by auto
  moreover have "encodes (int N - 1) L R (Nd p l r)" by (rule valid_bvh_encodes[OF v n])
  then have "0 \<le> p \<and> p < int N - 1" by simp
  ultimately show ?thesis using n lr by blast
qed

lemma valid_bvh_root_parent:
  assumes v: "valid_bvh N L R P t" and s: "s \<in> set (subtrees t)"
    and p: "rd P (root s) = Some (- 1)"
  shows "s = t"
proof (rule ccontr)
  assume "s \<noteq> t"
  from valid_bvh_parent[OF v s this] p show False by auto
qed

lemma valid_bvh_child:
  assumes v: "valid_bvh N L R P t" and s: "s \<in> set (subtrees t)"
    and n: "Nd p l r \<in> set (subtrees t)" and p: "rd P (root s) = Some p"
  shows "s = l \<or> s = r"
proof -
  have d: "distinct (preorder t)" using v by (simp add: valid_bvh_def valid_topology_def)
  have enc: "encodes (int N - 1) L R (Nd p l r)" by (rule valid_bvh_encodes[OF v n])
  then have p0: "0 \<le> p" by simp
  have "s \<noteq> t"
  proof
    assume "s = t"
    then have "root s = 0" using v by (simp add: valid_bvh_def valid_topology_def)
    then have "rd P (root s) = Some (- 1)" using v by (simp add: valid_bvh_def)
    with p p0 show False by simp
  qed
  from valid_bvh_parent[OF v s this] obtain p' l' r' where
    n': "Nd p' l' r' \<in> set (subtrees t)" and lr: "l' = s \<or> r' = s"
    and p': "rd P (root s) = Some p'" by blast
  from p p' have "p' = p" by simp
  with n' have "root (Nd p' l' r') = root (Nd p l r)" by simp
  from subtree_root_unique[OF d n' n this] lr show ?thesis by auto
qed

lemma not_inside_parent:
  assumes d: "distinct (preorder t)" and f: "inv_front N t ths" and len: "length ths = N"
    and a: "a < N" "t_pc (ths ! a) \<noteq> Start" "t_pc (ths ! a) \<noteq> Returned"
    and s: "s \<in> set (subtrees t)" "root s = t_current (ths ! a)"
    and n: "Nd p l r \<in> set (subtrees t)" "l = s \<or> r = s"
  shows "\<not> inside t ths p"
proof
  assume "inside t ths p"
  then obtain b sb where b: "b < N" "t_pc (ths ! b) \<noteq> Start"
    and sb: "sb \<in> set (subtrees t)" "root sb = t_current (ths ! b)" "p \<in> set (preorder sb)"
    using len by (auto simp: inside_def)
  have "root (Nd p l r) \<in> set (preorder sb)" using sb(3) by simp
  from subtree_closure[OF d sb(1) n(1) this]
  have nsb: "Nd p l r \<in> set (subtrees sb)" .
  have "s \<in> set (subtrees (Nd p l r))" using n(2) by (auto simp: subtrees_self)
  then have ssb: "s \<in> set (subtrees sb)" using subtrees_trans[OF nsb] by blast
  then have c: "t_current (ths ! a) \<in> set (preorder sb)"
    using subtree_preorder_subset[OF ssb] root_in_preorder[of s] s(2) by auto
  show False
  proof (cases "a = b")
    case True
    then have "root sb = root s" using sb(2) s(2) by simp
    from subtree_root_unique[OF d sb(1) s(1) this] have "sb = s" .
    with nsb have "Nd p l r \<in> set (subtrees s)" by simp
    from subtree_size[OF this] n(2) show False by auto
  next
    case False
    have "cur_node N a (ths ! a) = t_current (ths ! a)" using a(2) by (simp add: cur_node_def)
    with f a(1,3) b False sb(1,2) c show False
      unfolding inv_front_def by (metis)
  qed
qed

subsection \<open>Updating one thread\<close>

lemma waiting_update:
  assumes "a < length ths"
  shows "waiting (ths[a := th']) p =
     (waiting ths p - {a}) \<union>
     (if (t_pc th' = Merge \<or> t_pc th' = Returned) \<and> t_parent th' = p then {a} else {})"
  using assms by (auto simp: waiting_def nth_list_update)

lemma inside_mono:
  assumes len: "length ths' = length ths"
    and eq: "\<And>b. b < length ths \<Longrightarrow> t_pc (ths ! b) \<noteq> Start \<Longrightarrow>
        t_pc (ths' ! b) \<noteq> Start \<and> t_current (ths' ! b) = t_current (ths ! b)"
    and i: "inside t ths v"
  shows "inside t ths' v"
proof -
  from i obtain b s where b: "b < length ths" "t_pc (ths ! b) \<noteq> Start"
    and s: "s \<in> set (subtrees t)" "root s = t_current (ths ! b)" "v \<in> set (preorder s)"
    unfolding inside_def by blast
  from eq[OF b] have "t_pc (ths' ! b) \<noteq> Start" "root s = t_current (ths' ! b)"
    using s(2) by simp_all
  with b(1) len s(1,3) show ?thesis unfolding inside_def by metis
qed

lemma inside_update_pc:
  assumes "a < length ths" "t_pc (ths ! a) \<noteq> Start" "q \<noteq> Start"
  shows "inside t (ths[a := (ths ! a)\<lparr>t_pc := q\<rparr>]) v = inside t ths v"
proof
  assume "inside t (ths[a := (ths ! a)\<lparr>t_pc := q\<rparr>]) v"
  then show "inside t ths v"
  proof (rule inside_mono[rotated 2])
    show "length ths = length (ths[a := (ths ! a)\<lparr>t_pc := q\<rparr>])" by simp
    fix b assume "b < length (ths[a := (ths ! a)\<lparr>t_pc := q\<rparr>])"
      "t_pc (ths[a := (ths ! a)\<lparr>t_pc := q\<rparr>] ! b) \<noteq> Start"
    then show "t_pc (ths ! b) \<noteq> Start \<and>
        t_current (ths ! b) = t_current (ths[a := (ths ! a)\<lparr>t_pc := q\<rparr>] ! b)"
      using assms by (cases "a = b") simp_all
  qed
next
  assume "inside t ths v"
  then show "inside t (ths[a := (ths ! a)\<lparr>t_pc := q\<rparr>]) v"
  proof (rule inside_mono[rotated 2])
    show "length (ths[a := (ths ! a)\<lparr>t_pc := q\<rparr>]) = length ths" by simp
    fix b assume "b < length ths" "t_pc (ths ! b) \<noteq> Start"
    then show "t_pc (ths[a := (ths ! a)\<lparr>t_pc := q\<rparr>] ! b) \<noteq> Start \<and>
        t_current (ths[a := (ths ! a)\<lparr>t_pc := q\<rparr>] ! b) = t_current (ths ! b)"
      using assms by (cases "a = b") simp_all
  qed
qed

lemma inv_front_update_pc:
  assumes f: "inv_front N t ths" and len: "length ths = N" and a: "a < N"
    and pc: "t_pc (ths ! a) \<noteq> Start" "q \<noteq> Start" "q \<noteq> Returned \<longrightarrow> t_pc (ths ! a) \<noteq> Returned"
  shows "inv_front N t (ths[a := (ths ! a)\<lparr>t_pc := q\<rparr>])"
  unfolding inv_front_def
proof (intro allI impI)
  let ?ths = "ths[a := (ths ! a)\<lparr>t_pc := q\<rparr>]"
  fix x y assume xy: "x < N" "y < N" "x \<noteq> y" "t_pc (?ths ! y) \<noteq> Start"
  have cur: "t_current (?ths ! z) = t_current (ths ! z)" if "z < N" for z
    using that len by (cases "a = z") simp_all
  have st: "(t_pc (?ths ! z) \<noteq> Start) = (t_pc (ths ! z) \<noteq> Start)" if "z < N" for z
    using that len pc by (cases "a = z") simp_all
  have cn: "cur_node N z (?ths ! z) = cur_node N z (ths ! z)" if "z < N" for z
    using that len pc by (cases "a = z") (simp_all add: cur_node_def)
  have rt: "t_pc (?ths ! z) \<noteq> Returned \<Longrightarrow> t_pc (ths ! z) \<noteq> Returned" if "z < N" for z
    using that len pc by (cases "a = z") simp_all
  from xy(4) have y0: "t_pc (ths ! y) \<noteq> Start" using st[OF xy(2)] by simp
  from f xy(1-3) y0 have old:
    "t_pc (ths ! x) \<noteq> Returned \<longrightarrow>
       \<not> (\<exists>s \<in> set (subtrees t). root s = t_current (ths ! y) \<and>
             cur_node N x (ths ! x) \<in> set (preorder s))"
    "t_pc (ths ! x) \<noteq> Start \<longrightarrow> t_current (ths ! x) \<noteq> t_current (ths ! y)"
    unfolding inv_front_def by blast+
  show "(t_pc (?ths ! x) \<noteq> Returned \<longrightarrow>
           \<not> (\<exists>s \<in> set (subtrees t). root s = t_current (?ths ! y) \<and>
                 cur_node N x (?ths ! x) \<in> set (preorder s))) \<and>
        (t_pc (?ths ! x) \<noteq> Start \<longrightarrow> t_current (?ths ! x) \<noteq> t_current (?ths ! y))"
    using old rt[OF xy(1)] st[OF xy(1)] cur[OF xy(1)] cur[OF xy(2)] cn[OF xy(1)] by auto
qed

lemma inv_thread_update_pc:
  assumes "inv_thread N P lo up leaf t B a th" "t_pc th \<noteq> Start" "q \<noteq> Start"
    "q \<noteq> Returned \<longrightarrow> t_pc th \<noteq> Returned" "q = Merge \<longrightarrow> t_parent th \<noteq> - 1"
  shows "inv_thread N P lo up leaf t B a (th\<lparr>t_pc := q\<rparr>)"
  using assms unfolding inv_thread_def by auto

lemma inv_flag_at_cong:
  assumes "inv_flag_at t ths F p" "inside t ths' p = inside t ths p"
    "waiting ths' p = waiting ths p" "F' ! nat p = F ! nat p"
    "\<And>x. x \<in> waiting ths p \<Longrightarrow> t_pc (ths' ! x) = t_pc (ths ! x)"
  shows "inv_flag_at t ths' F' p"
proof (cases "inside t ths p")
  case True
  with assms show ?thesis by (simp add: inv_flag_at_def)
next
  case False
  with assms(1) consider "F ! nat p = 0" "waiting ths p = {}"
    | a where "F ! nat p = 1" "waiting ths p = {a}" "t_pc (ths ! a) = Returned"
    | a b where "a \<noteq> b" "F ! nat p = 2" "waiting ths p = {a, b}"
        "t_pc (ths ! a) = Merge" "t_pc (ths ! b) = Returned"
    unfolding inv_flag_at_def by auto
  then show ?thesis
  proof cases
    case 1
    with False assms(2-4) show ?thesis by (simp add: inv_flag_at_def)
  next
    case 2
    then have "t_pc (ths' ! a) = Returned" using assms(5)[of a] by simp
    with 2 False assms(2-4) show ?thesis unfolding inv_flag_at_def by auto
  next
    case 3
    then have "t_pc (ths' ! a) = Merge" "t_pc (ths' ! b) = Returned"
      using assms(5)[of a] assms(5)[of b] by simp_all
    with 3 False assms(2-4) show ?thesis unfolding inv_flag_at_def by auto
  qed
qed

lemma inv_flag_atI0:
  "\<not> inside t ths p \<Longrightarrow> F ! nat p = 0 \<Longrightarrow> waiting ths p = {} \<Longrightarrow> inv_flag_at t ths F p"
  unfolding inv_flag_at_def by simp

lemma inv_flag_atI1:
  "\<not> inside t ths p \<Longrightarrow> F ! nat p = 1 \<Longrightarrow> waiting ths p = {a} \<Longrightarrow>
   t_pc (ths ! a) = Returned \<Longrightarrow> inv_flag_at t ths F p"
  unfolding inv_flag_at_def by auto

lemma inv_flag_atI2:
  "\<not> inside t ths p \<Longrightarrow> a \<noteq> b \<Longrightarrow> F ! nat p = 2 \<Longrightarrow> waiting ths p = {a, b} \<Longrightarrow>
   t_pc (ths ! a) = Merge \<Longrightarrow> t_pc (ths ! b) = Returned \<Longrightarrow> inv_flag_at t ths F p"
  unfolding inv_flag_at_def by auto

lemma bb_inv_arrive_root:
  assumes inv: "bb_inv N P lo up leaf t ths F B" and a: "a < N"
    and pc: "t_pc (ths ! a) = Arrive" and par: "t_parent (ths ! a) = - 1"
  shows "bb_inv N P lo up leaf t (ths[a := (ths ! a)\<lparr>t_pc := Returned\<rparr>]) F B"
proof -
  let ?ths = "ths[a := (ths ! a)\<lparr>t_pc := Returned\<rparr>]"
  have len: "length ths = N" and f: "inv_front N t ths" and fl: "inv_flags N t ths F"
    and th: "\<And>b. b < N \<Longrightarrow> inv_thread N P lo up leaf t B b (ths ! b)"
    using inv by (simp_all add: bb_inv_def)
  have "inv_thread N P lo up leaf t B b (?ths ! b)" if "b < N" for b
  proof (cases "a = b")
    case True
    then show ?thesis
      using inv_thread_update_pc[OF th[OF a], of Returned] pc len a by simp
  next
    case False
    then show ?thesis using th[OF that] by simp
  qed
  moreover have "inv_front N t ?ths"
    using inv_front_update_pc[OF f len a, of Returned] pc by simp
  moreover have "inv_flags N t ?ths F"
    unfolding inv_flags_def
  proof (intro allI impI)
    fix p assume p: "0 \<le> p \<and> p < int N - 1"
    then have old: "inv_flag_at t ths F p" using fl by (simp add: inv_flags_def)
    have "a \<notin> waiting ths p" using pc by (simp add: waiting_def)
    moreover have "waiting ?ths p = waiting ths p - {a}"
      using a len par p by (subst waiting_update) auto
    ultimately have w: "waiting ?ths p = waiting ths p" by simp
    show "inv_flag_at t ?ths F p"
    proof (rule inv_flag_at_cong[OF old _ w])
      show "inside t ?ths p = inside t ths p"
        using a len pc by (intro inside_update_pc) simp_all
      fix x assume "x \<in> waiting ths p"
      then have "x \<noteq> a" using pc by (auto simp: waiting_def)
      then show "t_pc (?ths ! x) = t_pc (ths ! x)" by simp
    qed simp
  qed
  ultimately show ?thesis using inv by (simp add: bb_inv_def)
qed

lemma thread_on_child:
  assumes v: "valid_bvh N L R P t" and th: "inv_thread N P lo up leaf t B x thx"
    and pc: "t_pc thx \<noteq> Start" and par: "t_parent thx = p"
    and n: "Nd p l r \<in> set (subtrees t)"
  shows "t_current thx = root l \<or> t_current thx = root r"
proof -
  from th pc par obtain s where s: "s \<in> set (subtrees t)" "root s = t_current thx"
    "rd P (t_current thx) = Some p"
    unfolding inv_thread_def by blast
  from valid_bvh_child[OF v s(1) n] s(2,3) show ?thesis by auto
qed

lemma bb_inv_arrive:
  assumes inv: "bb_inv N P lo up leaf t ths F B" and v: "valid_bvh N L R P t" and a: "a < N"
    and pc: "t_pc (ths ! a) = Arrive" and par: "t_parent (ths ! a) = p" "p \<noteq> - 1"
  shows "0 \<le> p \<and> p < int N - 1 \<and> \<not> inside t ths p \<and>
     (\<forall>x < N. t_pc (ths ! x) = Merge \<longrightarrow> t_parent (ths ! x) \<noteq> p) \<and>
     bb_inv N P lo up leaf t
       (ths[a := (ths ! a)\<lparr>t_pc := (if F ! nat p = 1 then Merge else Returned)\<rparr>])
       (F[nat p := F ! nat p + 1]) B"
proof -
  let ?q = "if F ! nat p = 1 then Merge else Returned"
  let ?ths = "ths[a := (ths ! a)\<lparr>t_pc := ?q\<rparr>]"
  let ?F = "F[nat p := F ! nat p + 1]"
  have len: "length ths = N" and lenF: "length F = N - 1" and f: "inv_front N t ths"
    and fl: "inv_flags N t ths F"
    and th: "\<And>b. b < N \<Longrightarrow> inv_thread N P lo up leaf t B b (ths ! b)"
    using inv by (simp_all add: bb_inv_def)
  have d: "distinct (preorder t)" and r0: "root t = 0" and p0: "rd P 0 = Some (- 1)"
    using v by (simp_all add: valid_bvh_def valid_topology_def)
  from th[OF a] pc par obtain s where s: "s \<in> set (subtrees t)" "root s = t_current (ths ! a)"
    "rd P (t_current (ths ! a)) = Some p"
    unfolding inv_thread_def by auto
  have "s \<noteq> t" using s(2,3) r0 p0 par(2) by auto
  from valid_bvh_parent[OF v s(1) this] s(2,3) obtain l r where
    n: "Nd p l r \<in> set (subtrees t)" "l = s \<or> r = s" and rng: "0 \<le> p" "p < int N - 1"
    by auto
  have ni: "\<not> inside t ths p"
    using not_inside_parent[OF d f len a _ _ s(1,2) n] pc by simp
  have flp: "inv_flag_at t ths F p" using fl rng by (simp add: inv_flags_def)
  have anw: "a \<notin> waiting ths p" using pc by (simp add: waiting_def)
  have cur_a: "t_current (ths ! a) = root l \<or> t_current (ths ! a) = root r"
    using n(2) s(2) by auto
  have cases: "(F ! nat p = 0 \<and> waiting ths p = {}) \<or>
      (\<exists>b. F ! nat p = 1 \<and> waiting ths p = {b} \<and> t_pc (ths ! b) = Returned)"
  proof -
    have "\<not> (\<exists>b c. b \<noteq> c \<and> waiting ths p = {b, c})"
    proof
      assume "\<exists>b c. b \<noteq> c \<and> waiting ths p = {b, c}"
      then obtain b c where bc: "b \<noteq> c" "waiting ths p = {b, c}" by blast
      then have mem: "b \<in> waiting ths p" "c \<in> waiting ths p" by simp_all
      then have b: "b < N" "t_pc (ths ! b) \<noteq> Start" "t_parent (ths ! b) = p"
        and c: "c < N" "t_pc (ths ! c) \<noteq> Start" "t_parent (ths ! c) = p"
        using len by (auto simp: waiting_def)
      have ab: "a \<noteq> b" "a \<noteq> c" using anw mem by auto
      have cb: "t_current (ths ! b) = root l \<or> t_current (ths ! b) = root r"
        by (rule thread_on_child[OF v th[OF b(1)] b(2,3) n(1)])
      have cc: "t_current (ths ! c) = root l \<or> t_current (ths ! c) = root r"
        by (rule thread_on_child[OF v th[OF c(1)] c(2,3) n(1)])
      have "t_current (ths ! a) \<noteq> t_current (ths ! b)"
        using f a b(1,2) ab(1) pc unfolding inv_front_def by simp
      moreover have "t_current (ths ! a) \<noteq> t_current (ths ! c)"
        using f a c(1,2) ab(2) pc unfolding inv_front_def by simp
      moreover have "t_current (ths ! b) \<noteq> t_current (ths ! c)"
        using f b(1,2) c(1,2) bc(1) unfolding inv_front_def by simp
      ultimately show False using cur_a cb cc by auto
    qed
    with flp ni show ?thesis unfolding inv_flag_at_def by auto
  qed
  have thr: "inv_thread N P lo up leaf t B b (?ths ! b)" if "b < N" for b
  proof (cases "a = b")
    case True
    have "inv_thread N P lo up leaf t B a ((ths ! a)\<lparr>t_pc := ?q\<rparr>)"
      using pc par by (intro inv_thread_update_pc[OF th[OF a]]) simp_all
    with True len a show ?thesis by simp
  next
    case False
    then show ?thesis using th[OF that] by simp
  qed
  have fr: "inv_front N t ?ths"
    using pc by (intro inv_front_update_pc[OF f len a]) simp_all
  have ins: "inside t ?ths x = inside t ths x" for x
    using a len pc by (intro inside_update_pc) simp_all
  have wt: "waiting ?ths x = waiting ths x - {a} \<union> (if x = p then {a} else {})" for x
    using a len par by (subst waiting_update) auto
  have flg: "inv_flags N t ?ths ?F"
    unfolding inv_flags_def
  proof (intro allI impI)
    fix x assume x: "0 \<le> x \<and> x < int N - 1"
    show "inv_flag_at t ?ths ?F x"
    proof (cases "x = p")
      case False
      have old: "inv_flag_at t ths F x" using fl x by (simp add: inv_flags_def)
      have "a \<notin> waiting ths x" using pc by (simp add: waiting_def)
      then have w: "waiting ?ths x = waiting ths x" using wt[of x] False by simp
      have "nat p \<noteq> nat x" using False x rng by linarith
      then have Fx: "?F ! nat x = F ! nat x" by simp
      show ?thesis
      proof (rule inv_flag_at_cong[OF old ins w Fx])
        fix y assume "y \<in> waiting ths x"
        then have "y \<noteq> a" using pc by (auto simp: waiting_def)
        then show "t_pc (?ths ! y) = t_pc (ths ! y)" by simp
      qed
    next
      case True
      have w: "waiting ?ths p = waiting ths p \<union> {a}" using wt[of p] anw by simp
      have Fp: "?F ! nat p = F ! nat p + 1" using rng lenF by simp
      have pca: "t_pc (?ths ! a) = ?q" using a len by simp
      from cases show ?thesis
      proof
        assume c0: "F ! nat p = 0 \<and> waiting ths p = {}"
        then have "?F ! nat p = 1" "waiting ?ths p = {a}" "t_pc (?ths ! a) = Returned"
          using w Fp pca by simp_all
        moreover have "\<not> inside t ?ths p" using ni ins by simp
        ultimately have "inv_flag_at t ?ths ?F p" by (intro inv_flag_atI1)
        then show ?thesis using True by simp
      next
        assume "\<exists>b. F ! nat p = 1 \<and> waiting ths p = {b} \<and> t_pc (ths ! b) = Returned"
        then obtain b where b: "F ! nat p = 1" "waiting ths p = {b}" "t_pc (ths ! b) = Returned"
          by blast
        then have ab: "a \<noteq> b" using anw by auto
        then have "t_pc (?ths ! b) = Returned" using b(3) by simp
        moreover have "?F ! nat p = 2" "waiting ?ths p = {a, b}" "t_pc (?ths ! a) = Merge"
          using w Fp pca b by auto
        moreover have "\<not> inside t ?ths p" using ni ins by simp
        ultimately have "inv_flag_at t ?ths ?F p" using ab by (intro inv_flag_atI2)
        then show ?thesis using True by simp
      qed
    qed
  qed
  have nomerge: "\<forall>x < N. t_pc (ths ! x) = Merge \<longrightarrow> t_parent (ths ! x) \<noteq> p"
  proof (intro allI impI notI)
    fix x assume x: "x < N" "t_pc (ths ! x) = Merge" "t_parent (ths ! x) = p"
    then have "x \<in> waiting ths p" using len by (simp add: waiting_def)
    with cases x(2) show False by auto
  qed
  show ?thesis using rng ni nomerge thr fr flg inv by (simp add: bb_inv_def)
qed

lemma valid_bvh_leaf:
  assumes v: "valid_bvh N L R P t" and a: "a < N"
  shows "Lf (int N - 1 + int a) \<in> set (subtrees t)"
proof -
  have vt: "valid_topology N L R t" using v by (simp add: valid_bvh_def)
  have "int N - 1 + int a \<in> set (preorder t)"
    using valid_preorder_set[OF vt] a by simp
  then have "int N - 1 + int a \<in> set (map root (subtrees t))" by (simp only: map_root_subtrees)
  then obtain s where s: "s \<in> set (subtrees t)" "root s = int N - 1 + int a" by auto
  show ?thesis
  proof (cases s)
    case (Lf k)
    with s show ?thesis by simp
  next
    case (Nd i l r)
    have "encodes (int N - 1) L R s" by (rule valid_bvh_encodes[OF v s(1)])
    with Nd s(2) show ?thesis by simp
  qed
qed

lemma valid_bvh_node_range:
  assumes v: "valid_bvh N L R P t" and s: "s \<in> set (subtrees t)" and x: "x \<in> set (preorder s)"
  shows "0 \<le> x" "x < 2 * int N - 1"
proof -
  have vt: "valid_topology N L R t" using v by (simp add: valid_bvh_def)
  have "x \<in> set (preorder t)" using subtree_preorder_subset[OF s] x by blast
  then show "0 \<le> x" "x < 2 * int N - 1" using valid_preorder_set[OF vt] by simp_all
qed

lemma bb_inv_start:
  assumes inv: "bb_inv N P lo up leaf t ths F B" and v: "valid_bvh N L R P t" and a: "a < N"
    and pc: "t_pc (ths ! a) = Start"
  shows "(\<forall>p < int N - 1. inside t
       (ths[a := \<lparr>t_pc = Arrive, t_current = int N - 1 + int a,
                   t_parent = P ! nat (int N - 1 + int a),
                   t_aabb = tbox N lo up leaf (Lf (int N - 1 + int a))\<rparr>]) p = inside t ths p) \<and>
     bb_inv N P lo up leaf t
       (ths[a := \<lparr>t_pc = Arrive, t_current = int N - 1 + int a,
                   t_parent = P ! nat (int N - 1 + int a),
                   t_aabb = tbox N lo up leaf (Lf (int N - 1 + int a))\<rparr>])
       F (B[nat (int N - 1 + int a) := tbox N lo up leaf (Lf (int N - 1 + int a))])"
proof -
  define c where "c = int N - 1 + int a"
  define th' :: "'a bb_thread" where "th' = \<lparr>t_pc = Arrive, t_current = c,
      t_parent = P ! nat c, t_aabb = tbox N lo up leaf (Lf c)\<rparr>"
  define ths' where "ths' = ths[a := th']"
  define B' where "B' = B[nat c := tbox N lo up leaf (Lf c)]"
  have len: "length ths = N" and lenB: "length B = 2 * N - 1" and f: "inv_front N t ths"
    and fl: "inv_flags N t ths F"
    and th: "\<And>b. b < N \<Longrightarrow> inv_thread N P lo up leaf t B b (ths ! b)"
    using inv by (simp_all add: bb_inv_def)
  have d: "distinct (preorder t)" and lenP: "length P = 2 * N - 1"
    using v by (simp_all add: valid_bvh_def valid_topology_def)
  have lf: "Lf c \<in> set (subtrees t)" unfolding c_def by (rule valid_bvh_leaf[OF v a])
  have crng: "0 \<le> c" "c < 2 * int N - 1" "nat c < length B" "int N - 1 \<le> c"
    using a lenB by (simp_all add: c_def)
  have cn_a: "cur_node N a (ths ! a) = c" using pc by (simp add: cur_node_def c_def)
  have nth_a: "ths' ! a = th'" using a len by (simp add: ths'_def)
  have nth_o: "ths' ! b = ths ! b" if "b \<noteq> a" for b using that by (simp add: ths'_def)
  have sub_c: "s = Lf c" if "s \<in> set (subtrees t)" "root s = c" for s
    using subtree_root_unique[OF d that(1) lf] that(2) by simp
  have notin: "c \<notin> set (preorder s)"
    if "b < N" "b \<noteq> a" "t_pc (ths ! b) \<noteq> Start" "s \<in> set (subtrees t)"
      "root s = t_current (ths ! b)" for b s
    using f a that pc cn_a unfolding inv_front_def by (metis pc.distinct(5))
  have cur_ne: "t_current (ths ! b) \<noteq> c" if "b < N" "b \<noteq> a" "t_pc (ths ! b) \<noteq> Start" for b
  proof
    assume e: "t_current (ths ! b) = c"
    from th[OF that(1)] that(3) obtain s where s: "s \<in> set (subtrees t)"
      "root s = t_current (ths ! b)" unfolding inv_thread_def by blast
    have "c \<in> set (preorder s)" using root_in_preorder[of s] s(2) e by simp
    with notin[OF that s] show False by simp
  qed
  have thr: "inv_thread N P lo up leaf t B' b (ths' ! b)" if b: "b < N" for b
  proof (cases "b = a")
    case True
    have "rd P c = Some (P ! nat c)" using crng lenP by (simp add: rd_def)
    moreover have "B' ! nat c = tbox N lo up leaf (Lf c)" using crng by (simp add: B'_def)
    ultimately show ?thesis
      using True nth_a lf unfolding inv_thread_def th'_def
      by (auto simp: c_def intro!: bexI[where x = "Lf c"])
  next
    case False
    show ?thesis
    proof (cases "t_pc (ths ! b) = Start")
      case True
      then show ?thesis using False nth_o unfolding inv_thread_def by simp
    next
      case ns: False
      from th[OF b] ns obtain s where s: "s \<in> set (subtrees t)" "root s = t_current (ths ! b)"
        "int N - 1 + int b \<in> set (preorder s)" "rd P (t_current (ths ! b)) = Some (t_parent (ths ! b))"
        "\<forall>u \<in> set (subtrees s). B ! nat (root u) = tbox N lo up leaf u"
        "t_pc (ths ! b) \<noteq> Returned \<longrightarrow> t_aabb (ths ! b) = tbox N lo up leaf s"
        "t_pc (ths ! b) = Merge \<longrightarrow> t_parent (ths ! b) \<noteq> - 1"
        unfolding inv_thread_def by blast
      have "\<forall>u \<in> set (subtrees s). B' ! nat (root u) = tbox N lo up leaf u"
      proof
        fix u assume u: "u \<in> set (subtrees s)"
        have "root u \<in> set (preorder s)"
          using subtree_preorder_subset[OF u] root_in_preorder[of u] by blast
        then have "root u \<noteq> c" "0 \<le> root u"
          using notin[OF b False ns s(1,2)] valid_bvh_node_range(1)[OF v s(1)] by auto
        then have "nat (root u) \<noteq> nat c" using crng by simp
        then show "B' ! nat (root u) = tbox N lo up leaf u" using s(5) u by (simp add: B'_def)
      qed
      with s show ?thesis using False nth_o unfolding inv_thread_def by auto
    qed
  qed
  have fr: "inv_front N t ths'"
    unfolding inv_front_def
  proof (intro allI impI)
    fix x y assume xy: "x < N" "y < N" "x \<noteq> y" "t_pc (ths' ! y) \<noteq> Start"
    have cn: "cur_node N x (ths' ! x) = cur_node N x (ths ! x)"
      using nth_a nth_o[of x] cn_a by (cases "x = a") (simp_all add: cur_node_def th'_def)
    show "(t_pc (ths' ! x) \<noteq> Returned \<longrightarrow>
           \<not> (\<exists>s \<in> set (subtrees t). root s = t_current (ths' ! y) \<and>
                 cur_node N x (ths' ! x) \<in> set (preorder s))) \<and>
        (t_pc (ths' ! x) \<noteq> Start \<longrightarrow> t_current (ths' ! x) \<noteq> t_current (ths' ! y))"
    proof (cases "y = a")
      case True
      then have x: "x \<noteq> a" using xy(3) by simp
      have cy: "t_current (ths' ! y) = c" using True nth_a by (simp add: th'_def)
      have p1: "cur_node N x (ths ! x) \<noteq> c" if "t_pc (ths ! x) \<noteq> Returned"
      proof (cases "t_pc (ths ! x) = Start")
        case True
        then show ?thesis using x by (simp add: cur_node_def c_def)
      next
        case False
        then show ?thesis using cur_ne[OF xy(1) x] by (simp add: cur_node_def)
      qed
      have p2: "t_current (ths ! x) \<noteq> c" if "t_pc (ths ! x) \<noteq> Start"
        using cur_ne[OF xy(1) x that] .
      have "\<not> (\<exists>s \<in> set (subtrees t). root s = c \<and> cur_node N x (ths ! x) \<in> set (preorder s))"
        if "t_pc (ths ! x) \<noteq> Returned"
      proof
        assume "\<exists>s \<in> set (subtrees t). root s = c \<and> cur_node N x (ths ! x) \<in> set (preorder s)"
        then obtain s where s: "s \<in> set (subtrees t)" "root s = c"
          "cur_node N x (ths ! x) \<in> set (preorder s)" by blast
        from sub_c[OF s(1,2)] s(3) have "cur_node N x (ths ! x) = c" by simp
        with p1[OF that] show False by simp
      qed
      then show ?thesis using cy cn nth_o[OF x] p2 by simp
    next
      case False
      then have y: "ths' ! y = ths ! y" "t_pc (ths ! y) \<noteq> Start"
        using nth_o xy(4) by simp_all
      from f xy(1-3) y(2) have old:
        "t_pc (ths ! x) \<noteq> Returned \<longrightarrow>
           \<not> (\<exists>s \<in> set (subtrees t). root s = t_current (ths ! y) \<and>
                 cur_node N x (ths ! x) \<in> set (preorder s))"
        "t_pc (ths ! x) \<noteq> Start \<longrightarrow> t_current (ths ! x) \<noteq> t_current (ths ! y)"
        unfolding inv_front_def by blast+
      show ?thesis
      proof (cases "x = a")
        case True
        have "t_current (ths ! y) \<noteq> c" using cur_ne[OF xy(2) False y(2)] .
        then show ?thesis using True nth_a y(1) old(1) cn pc by (simp add: th'_def)
      next
        case xa: False
        then show ?thesis using old y(1) nth_o cn by simp
      qed
    qed
  qed
  have ins: "inside t ths' p = inside t ths p" if p: "p < int N - 1" for p
  proof
    assume "inside t ths' p"
    then obtain b s where b: "b < length ths'" "t_pc (ths' ! b) \<noteq> Start"
      and s: "s \<in> set (subtrees t)" "root s = t_current (ths' ! b)" "p \<in> set (preorder s)"
      unfolding inside_def by blast
    have "b \<noteq> a"
    proof
      assume "b = a"
      then have "root s = c" using s(2) nth_a by (simp add: th'_def)
      from sub_c[OF s(1) this] s(3) have "p = c" by simp
      with p crng show False by simp
    qed
    then show "inside t ths p" using b s nth_o unfolding inside_def ths'_def by auto
  next
    assume "inside t ths p"
    then show "inside t ths' p"
    proof (rule inside_mono[rotated 2])
      show "length ths' = length ths" by (simp add: ths'_def)
      fix b assume "b < length ths" "t_pc (ths ! b) \<noteq> Start"
      then have "b \<noteq> a" using pc by auto
      then show "t_pc (ths' ! b) \<noteq> Start \<and> t_current (ths' ! b) = t_current (ths ! b)"
        using nth_o \<open>t_pc (ths ! b) \<noteq> Start\<close> by simp
    qed
  qed
  have flg: "inv_flags N t ths' F"
    unfolding inv_flags_def
  proof (intro allI impI)
    fix p assume p: "0 \<le> p \<and> p < int N - 1"
    then have old: "inv_flag_at t ths F p" using fl by (simp add: inv_flags_def)
    have "a \<notin> waiting ths p" using pc by (simp add: waiting_def)
    moreover have "waiting ths' p = waiting ths p - {a}"
      unfolding ths'_def using a len by (subst waiting_update) (auto simp: th'_def)
    ultimately have w: "waiting ths' p = waiting ths p" by simp
    show "inv_flag_at t ths' F p"
    proof (rule inv_flag_at_cong[OF old _ w])
      show "inside t ths' p = inside t ths p" using ins p by simp
      fix x assume "x \<in> waiting ths p"
      then have "x \<noteq> a" using pc by (auto simp: waiting_def)
      then show "t_pc (ths' ! x) = t_pc (ths ! x)" using nth_o by simp
    qed simp
  qed
  have "bb_inv N P lo up leaf t ths' F B'"
    using thr fr flg inv by (simp add: bb_inv_def ths'_def B'_def)
  moreover have "\<forall>p < int N - 1. inside t ths' p = inside t ths p" using ins by simp
  ultimately show ?thesis by (simp add: ths'_def B'_def th'_def c_def)
qed

lemma bb_inv_merge:
  assumes inv: "bb_inv N P lo up leaf t ths F B" and v: "valid_bvh N L R P t" and a: "a < N"
    and pc: "t_pc (ths ! a) = Merge" and par: "t_parent (ths ! a) = p"
  shows "\<exists>l r. Nd p l r \<in> set (subtrees t) \<and> 0 \<le> p \<and> p < int N - 1 \<and>
     \<not> inside t ths p \<and>
     (t_current (ths ! a) = root l \<or> t_current (ths ! a) = root r) \<and>
     B ! nat (root l) = tbox N lo up leaf l \<and> B ! nat (root r) = tbox N lo up leaf r \<and>
     t_aabb (ths ! a) = B ! nat (t_current (ths ! a)) \<and>
     (\<forall>q. q \<noteq> p \<longrightarrow> inside t
       (ths[a := \<lparr>t_pc = Arrive, t_current = p, t_parent = P ! nat p,
                   t_aabb = tbox N lo up leaf (Nd p l r)\<rparr>]) q = inside t ths q) \<and>
     inside t
       (ths[a := \<lparr>t_pc = Arrive, t_current = p, t_parent = P ! nat p,
                   t_aabb = tbox N lo up leaf (Nd p l r)\<rparr>]) p \<and>
     bb_inv N P lo up leaf t
       (ths[a := \<lparr>t_pc = Arrive, t_current = p, t_parent = P ! nat p,
                   t_aabb = tbox N lo up leaf (Nd p l r)\<rparr>])
       F (B[nat p := tbox N lo up leaf (Nd p l r)])"
proof -
  have len: "length ths = N" and lenB: "length B = 2 * N - 1" and f: "inv_front N t ths"
    and fl: "inv_flags N t ths F"
    and th: "\<And>b. b < N \<Longrightarrow> inv_thread N P lo up leaf t B b (ths ! b)"
    using inv by (simp_all add: bb_inv_def)
  have d: "distinct (preorder t)" and r0: "root t = 0" and p0: "rd P 0 = Some (- 1)"
    and lenP: "length P = 2 * N - 1"
    using v by (simp_all add: valid_bvh_def valid_topology_def)
  from th[OF a] pc par obtain s where s: "s \<in> set (subtrees t)" "root s = t_current (ths ! a)"
    "int N - 1 + int a \<in> set (preorder s)" "rd P (t_current (ths ! a)) = Some p"
    "\<forall>u \<in> set (subtrees s). B ! nat (root u) = tbox N lo up leaf u"
    "t_aabb (ths ! a) = tbox N lo up leaf s" "p \<noteq> - 1"
    unfolding inv_thread_def by auto
  have "s \<noteq> t" using s(2,4,7) r0 p0 by auto
  from valid_bvh_parent[OF v s(1) this] s(2,4) obtain l r where
    n: "Nd p l r \<in> set (subtrees t)" "l = s \<or> r = s" and rng: "0 \<le> p" "p < int N - 1"
    by auto
  define sp where "sp = Nd p l r"
  have ni: "\<not> inside t ths p"
    using not_inside_parent[OF d f len a _ _ s(1,2) n] pc by simp
  have flp: "inv_flag_at t ths F p" using fl rng by (simp add: inv_flags_def)
  have aw: "a \<in> waiting ths p" using pc par a len by (simp add: waiting_def)
  from flp ni aw obtain b where b: "b \<noteq> a" "b \<in> waiting ths p" "t_pc (ths ! b) = Returned"
    and Fp: "F ! nat p = 2"
    using pc unfolding inv_flag_at_def by auto
  have bN: "b < N" and parb: "t_parent (ths ! b) = p" using b(2) len by (simp_all add: waiting_def)
  from th[OF bN] b(3) parb obtain sb where sb: "sb \<in> set (subtrees t)"
    "root sb = t_current (ths ! b)" "rd P (t_current (ths ! b)) = Some p"
    "\<forall>u \<in> set (subtrees sb). B ! nat (root u) = tbox N lo up leaf u"
    unfolding inv_thread_def by auto
  have "sb = l \<or> sb = r" using valid_bvh_child[OF v sb(1) n(1)] sb(2,3) by simp
  moreover have "t_current (ths ! a) \<noteq> t_current (ths ! b)"
    using b(1,3) pc by (intro inv_frontD2[OF f a bN]) simp_all
  then have "s \<noteq> sb" using s(2) sb(2) by auto
  ultimately have lr: "(l = s \<and> r = sb) \<or> (l = sb \<and> r = s)" using n(2) by auto
  have boxl: "\<forall>u \<in> set (subtrees l). B ! nat (root u) = tbox N lo up leaf u"
    and boxr: "\<forall>u \<in> set (subtrees r). B ! nat (root u) = tbox N lo up leaf u"
    using lr s(5) sb(4) by auto
  have Bl: "B ! nat (root l) = tbox N lo up leaf l" using boxl subtrees_self by blast
  have Br: "B ! nat (root r) = tbox N lo up leaf r" using boxr subtrees_self by blast
  have Bs: "B ! nat (root s) = tbox N lo up leaf s" using s(5) subtrees_self by blast
  have pre_sp: "set (preorder sp) = {p} \<union> set (preorder s) \<union> set (preorder sb)"
    using lr by (auto simp: sp_def)
  have cd: "p \<notin> set (preorder l)" "p \<notin> set (preorder r)"
    using subtree_children_distinct[OF d n(1)] by simp_all
  define th' :: "'a bb_thread" where "th' = \<lparr>t_pc = Arrive, t_current = p,
      t_parent = P ! nat p, t_aabb = tbox N lo up leaf sp\<rparr>"
  define ths' where "ths' = ths[a := th']"
  define B' where "B' = B[nat p := tbox N lo up leaf sp]"
  have nth_a: "ths' ! a = th'" using a len by (simp add: ths'_def)
  have nth_o: "ths' ! x = ths ! x" if "x \<noteq> a" for x using that by (simp add: ths'_def)
  have spS: "sp \<in> set (subtrees t)" using n(1) by (simp add: sp_def)
  have sub_p: "u = sp" if "u \<in> set (subtrees t)" "root u = p" for u
    using subtree_root_unique[OF d that(1) spS] that(2) by (simp add: sp_def)
  have prng: "nat p < length B" using rng lenB by linarith
  have noP: "p \<notin> set (preorder u)"
    if "x < N" "t_pc (ths ! x) \<noteq> Start" "u \<in> set (subtrees t)" "root u = t_current (ths ! x)"
    for x u
    using ni that len unfolding inside_def by blast
  have cur_ne: "t_current (ths ! x) \<noteq> p" if "x < N" "t_pc (ths ! x) \<noteq> Start" for x
  proof
    assume e: "t_current (ths ! x) = p"
    from th[OF that(1)] that(2) obtain u where u: "u \<in> set (subtrees t)"
      "root u = t_current (ths ! x)" unfolding inv_thread_def by blast
    have "p \<in> set (preorder u)" using root_in_preorder[of u] u(2) e by simp
    with noP[OF that u] show False by simp
  qed
  have Bupd: "B' ! nat (root u) = tbox N lo up leaf u"
    if "u \<in> set (subtrees t)" "B ! nat (root u) = tbox N lo up leaf u" for u
  proof (cases "root u = p")
    case True
    then show ?thesis using sub_p[OF that(1)] prng by (simp add: B'_def)
  next
    case False
    have "0 \<le> root u" using valid_bvh_node_range(1)[OF v that(1) root_in_preorder] .
    then have "nat (root u) \<noteq> nat p" using False rng by simp
    then show ?thesis using that(2) by (simp add: B'_def)
  qed
  have thr: "inv_thread N P lo up leaf t B' x (ths' ! x)" if x: "x < N" for x
  proof (cases "x = a")
    case True
    have "rd P p = Some (P ! nat p)" using rng lenP by (simp add: rd_def)
    moreover have "int N - 1 + int a \<in> set (preorder sp)" using s(3) pre_sp by simp
    moreover have "\<forall>u \<in> set (subtrees sp). B' ! nat (root u) = tbox N lo up leaf u"
    proof
      fix u assume u: "u \<in> set (subtrees sp)"
      have uS: "u \<in> set (subtrees t)" by (rule subtrees_trans[OF spS u])
      show "B' ! nat (root u) = tbox N lo up leaf u"
      proof (cases "u = sp")
        case True
        then show ?thesis using prng by (simp add: B'_def sp_def)
      next
        case False
        then have "u \<in> set (subtrees l) \<or> u \<in> set (subtrees r)" using u by (simp add: sp_def)
        then have "B ! nat (root u) = tbox N lo up leaf u" using boxl boxr by blast
        then show ?thesis by (rule Bupd[OF uS])
      qed
    qed
    ultimately show ?thesis
      using True nth_a spS unfolding inv_thread_def th'_def
      by (auto simp: sp_def intro!: bexI[where x = "Nd p l r"])
  next
    case False
    show ?thesis
    proof (cases "t_pc (ths ! x) = Start")
      case True
      then show ?thesis using False nth_o unfolding inv_thread_def by simp
    next
      case ns: False
      from th[OF x] ns obtain u where u: "u \<in> set (subtrees t)" "root u = t_current (ths ! x)"
        "int N - 1 + int x \<in> set (preorder u)" "rd P (t_current (ths ! x)) = Some (t_parent (ths ! x))"
        "\<forall>w \<in> set (subtrees u). B ! nat (root w) = tbox N lo up leaf w"
        "t_pc (ths ! x) \<noteq> Returned \<longrightarrow> t_aabb (ths ! x) = tbox N lo up leaf u"
        "t_pc (ths ! x) = Merge \<longrightarrow> t_parent (ths ! x) \<noteq> - 1"
        unfolding inv_thread_def by blast
      have "\<forall>w \<in> set (subtrees u). B' ! nat (root w) = tbox N lo up leaf w"
        using Bupd subtrees_trans[OF u(1)] u(5) by blast
      with u show ?thesis using False nth_o unfolding inv_thread_def by auto
    qed
  qed
  have fr: "inv_front N t ths'"
    unfolding inv_front_def
  proof (intro allI impI)
    fix x y assume xy: "x < N" "y < N" "x \<noteq> y" "t_pc (ths' ! y) \<noteq> Start"
    show "(t_pc (ths' ! x) \<noteq> Returned \<longrightarrow>
           \<not> (\<exists>u \<in> set (subtrees t). root u = t_current (ths' ! y) \<and>
                 cur_node N x (ths' ! x) \<in> set (preorder u))) \<and>
        (t_pc (ths' ! x) \<noteq> Start \<longrightarrow> t_current (ths' ! x) \<noteq> t_current (ths' ! y))"
    proof (cases "y = a")
      case True
      then have x: "x \<noteq> a" using xy(3) by simp
      have cy: "t_current (ths' ! y) = p" using True nth_a by (simp add: th'_def)
      have p2: "t_current (ths ! x) \<noteq> p" if "t_pc (ths ! x) \<noteq> Start"
        using cur_ne[OF xy(1) that] .
      have p1: "cur_node N x (ths ! x) \<notin> set (preorder sp)" if nr: "t_pc (ths ! x) \<noteq> Returned"
      proof -
        have "cur_node N x (ths ! x) \<noteq> p"
        proof (cases "t_pc (ths ! x) = Start")
          case True
          then show ?thesis using rng by (simp add: cur_node_def)
        next
          case False
          then show ?thesis using p2 by (simp add: cur_node_def)
        qed
        moreover have "cur_node N x (ths ! x) \<notin> set (preorder s)"
          using x nr pc s(1,2) by (intro inv_frontD1[OF f xy(1) a]) simp_all
        moreover have "x \<noteq> b" using nr b(3) by auto
        then have "cur_node N x (ths ! x) \<notin> set (preorder sb)"
          using nr b(3) sb(1,2) by (intro inv_frontD1[OF f xy(1) bN]) simp_all
        ultimately show ?thesis using pre_sp by simp
      qed
      have "\<not> (\<exists>u \<in> set (subtrees t). root u = p \<and> cur_node N x (ths ! x) \<in> set (preorder u))"
        if "t_pc (ths ! x) \<noteq> Returned"
        using p1[OF that] sub_p by blast
      then show ?thesis using cy nth_o[OF x] p2 by simp
    next
      case False
      then have y: "ths' ! y = ths ! y" "t_pc (ths ! y) \<noteq> Start"
        using nth_o xy(4) by simp_all
      from f xy(1-3) y(2) have old:
        "t_pc (ths ! x) \<noteq> Returned \<longrightarrow>
           \<not> (\<exists>u \<in> set (subtrees t). root u = t_current (ths ! y) \<and>
                 cur_node N x (ths ! x) \<in> set (preorder u))"
        "t_pc (ths ! x) \<noteq> Start \<longrightarrow> t_current (ths ! x) \<noteq> t_current (ths ! y)"
        unfolding inv_front_def by blast+
      show ?thesis
      proof (cases "x = a")
        case True
        have "t_current (ths ! y) \<noteq> p" using cur_ne[OF xy(2) y(2)] .
        moreover have "\<not> (\<exists>u \<in> set (subtrees t). root u = t_current (ths ! y) \<and> p \<in> set (preorder u))"
          using noP[OF xy(2) y(2)] by blast
        ultimately show ?thesis using True nth_a y(1) by (simp add: th'_def cur_node_def)
      next
        case xa: False
        then show ?thesis using old y(1) nth_o by simp
      qed
    qed
  qed
  have a': "a < length ths'" "t_pc (ths' ! a) \<noteq> Start" "root sp = t_current (ths' ! a)"
    using a len nth_a by (simp_all add: ths'_def th'_def sp_def)
  have ins_p: "inside t ths' p"
    by (rule insideI[OF a'(1,2) spS a'(3)]) (simp add: sp_def)
  have ins: "inside t ths' q = inside t ths q" if q: "q \<noteq> p" for q
  proof
    assume "inside t ths' q"
    then obtain x u where x: "x < length ths'" "t_pc (ths' ! x) \<noteq> Start"
      and u: "u \<in> set (subtrees t)" "root u = t_current (ths' ! x)" "q \<in> set (preorder u)"
      unfolding inside_def by blast
    show "inside t ths q"
    proof (cases "x = a")
      case True
      then have "root u = p" using u(2) nth_a by (simp add: th'_def)
      from sub_p[OF u(1) this] u(3) q pre_sp
      have "q \<in> set (preorder s) \<or> q \<in> set (preorder sb)" by auto
      then show ?thesis
      proof
        assume "q \<in> set (preorder s)"
        then show ?thesis using a len pc s(1,2) by (intro insideI[of a ths s]) simp_all
      next
        assume "q \<in> set (preorder sb)"
        then show ?thesis using bN len b(3) sb(1,2) by (intro insideI[of b ths sb]) simp_all
      qed
    next
      case False
      then show ?thesis using x u nth_o[OF False]
        by (intro insideI[of x ths u]) (simp_all add: ths'_def)
    qed
  next
    assume "inside t ths q"
    then obtain x u where x: "x < length ths" "t_pc (ths ! x) \<noteq> Start"
      and u: "u \<in> set (subtrees t)" "root u = t_current (ths ! x)" "q \<in> set (preorder u)"
      unfolding inside_def by blast
    show "inside t ths' q"
    proof (cases "x = a")
      case True
      then have "u = s" using subtree_root_unique[OF d u(1) s(1)] u(2) s(2) by simp
      then have "q \<in> set (preorder sp)" using u(3) pre_sp by simp
      then show ?thesis by (rule insideI[OF a'(1,2) spS a'(3)])
    next
      case False
      then show ?thesis using x u nth_o[OF False]
        by (intro insideI[of x ths' u]) (simp_all add: ths'_def)
    qed
  qed
  have flg: "inv_flags N t ths' F"
    unfolding inv_flags_def
  proof (intro allI impI)
    fix q assume q: "0 \<le> q \<and> q < int N - 1"
    show "inv_flag_at t ths' F q"
    proof (cases "q = p")
      case True
      then show ?thesis using ins_p Fp by (simp add: inv_flag_at_def)
    next
      case False
      have old: "inv_flag_at t ths F q" using fl q by (simp add: inv_flags_def)
      have "a \<notin> waiting ths q" using par False by (simp add: waiting_def)
      moreover have "waiting ths' q = waiting ths q - {a}"
        unfolding ths'_def using a len by (subst waiting_update) (auto simp: th'_def)
      ultimately have w: "waiting ths' q = waiting ths q" by simp
      show ?thesis
      proof (rule inv_flag_at_cong[OF old ins[OF False] w])
        fix x assume "x \<in> waiting ths q"
        then have "x \<noteq> a" using par False by (auto simp: waiting_def)
        then show "t_pc (ths' ! x) = t_pc (ths ! x)" using nth_o by simp
      qed simp
    qed
  qed
  have "bb_inv N P lo up leaf t ths' F B'"
    using thr fr flg inv by (simp add: bb_inv_def ths'_def B'_def)
  moreover have "t_current (ths ! a) = root l \<or> t_current (ths ! a) = root r"
    using n(2) s(2) by auto
  moreover have "t_aabb (ths ! a) = B ! nat (t_current (ths ! a))" using s(6) Bs s(2) by simp
  moreover have "\<forall>q. q \<noteq> p \<longrightarrow> inside t ths' q = inside t ths q" using ins by simp
  ultimately show ?thesis using n(1) rng Bl Br ni ins_p
    unfolding ths'_def B'_def th'_def sp_def by blast
qed

subsection \<open>The actions of the kernel\<close>

lemma aabb_merge_commute: "aabb_merge a b = aabb_merge b a"
  by (cases "lower a"; cases "lower b"; cases "upper a"; cases "upper b")
     (simp add: aabb_merge_def vec3_min_def vec3_max_def min.commute max.commute)

lemma sched_step_thread:
  assumes "a < length ths" "step (int a) (ths ! a) m = Some (th', m')"
  shows "sched_step step (int a) (ths, m) = Some (ths[a := th'], m')"
  using assms by (simp add: sched_step_def rd_def wr_def)

lemma step_start:
  assumes v: "valid_bvh N L R P t" and vi: "valid_inputs N lo up leaf" and a: "a < N"
    and lenB: "length (m_boxes m) = 2 * N - 1" and pc: "t_pc th = Start"
  shows "assign_bounding_boxes_step (int N) L R P lo up leaf (int a) th m =
     Some (\<lparr>t_pc = Arrive, t_current = int N - 1 + int a,
             t_parent = P ! nat (int N - 1 + int a),
             t_aabb = tbox N lo up leaf (Lf (int N - 1 + int a))\<rparr>,
           m\<lparr>m_boxes := (m_boxes m)[nat (int N - 1 + int a) := tbox N lo up leaf (Lf (int N - 1 + int a))],
              m_stores := m_stores m @ [(int N - 1 + int a, int a)]\<rparr>)"
proof -
  have lenP: "length P = 2 * N - 1" using v by (simp add: valid_bvh_def)
  have la: "a < length leaf" using vi a by (simp add: valid_inputs_def)
  have "leaf ! a \<in> set (take N leaf)" using a la by (simp add: in_set_conv_nth) (metis min.absorb2 la less_imp_le_nat nth_take a length_take min.commute)
  then have k: "0 \<le> leaf ! a" "leaf ! a < int (length lo)" "leaf ! a < int (length up)"
    using vi by (auto simp: valid_inputs_def list_all_iff)
  have r1: "rd leaf (int a) = Some (leaf ! a)" using la by (simp add: rd_def)
  have r2: "rd P (int N - 1 + int a) = Some (P ! nat (int N - 1 + int a))"
    using a lenP by (simp add: rd_def)
  have r3: "rd lo (leaf ! a) = Some (lo ! nat (leaf ! a))" using k by (simp add: rd_def)
  have r4: "rd up (leaf ! a) = Some (up ! nat (leaf ! a))" using k by (simp add: rd_def)
  have w: "wr (m_boxes m) (int N - 1 + int a) x =
      Some ((m_boxes m)[nat (int N - 1 + int a) := x])" for x
    using a lenB by (simp add: wr_def)
  have tb: "tbox N lo up leaf (Lf (int N - 1 + int a)) =
      \<lparr>lower = lo ! nat (leaf ! a), upper = up ! nat (leaf ! a)\<rparr>" by simp
  show ?thesis
    unfolding assign_bounding_boxes_step_def
    by (simp add: pc r1 r2 r3 r4 w tb Let_def del: tbox.simps)
qed

lemma step_arrive_root:
  assumes "t_pc th = Arrive" "t_parent th = - 1"
  shows "assign_bounding_boxes_step (int N) L R P lo up leaf (int a) th m =
     Some (th\<lparr>t_pc := Returned\<rparr>, m)"
  using assms unfolding assign_bounding_boxes_step_def by simp

lemma step_arrive:
  assumes "t_pc th = Arrive" "t_parent th = p" "p \<noteq> - 1" "0 \<le> p" "nat p < length (m_flags m)"
  shows "assign_bounding_boxes_step (int N) L R P lo up leaf (int a) th m =
     Some (th\<lparr>t_pc := (if m_flags m ! nat p = 1 then Merge else Returned)\<rparr>,
           m\<lparr>m_flags := (m_flags m)[nat p := m_flags m ! nat p + 1],
              m_arrivals := m_arrivals m @ [(p, int a)]\<rparr>)"
  using assms unfolding assign_bounding_boxes_step_def by (simp add: rd_def wr_def)

lemma step_returned:
  assumes "t_pc th = Returned"
  shows "assign_bounding_boxes_step (int N) L R P lo up leaf (int a) th m = Some (th, m)"
  using assms unfolding assign_bounding_boxes_step_def by simp

lemma step_merge:
  assumes v: "valid_bvh N L R P t" and n: "Nd p l r \<in> set (subtrees t)"
    and lenB: "length (m_boxes m) = 2 * N - 1"
    and pc: "t_pc th = Merge" and par: "t_parent th = p"
    and cur: "t_current th = root l \<or> t_current th = root r"
    and Bl: "m_boxes m ! nat (root l) = tbox N lo up leaf l"
    and Br: "m_boxes m ! nat (root r) = tbox N lo up leaf r"
    and ab: "t_aabb th = m_boxes m ! nat (t_current th)"
  shows "assign_bounding_boxes_step (int N) L R P lo up leaf (int a) th m =
     Some (\<lparr>t_pc = Arrive, t_current = p, t_parent = P ! nat p,
             t_aabb = tbox N lo up leaf (Nd p l r)\<rparr>,
           m\<lparr>m_boxes := (m_boxes m)[nat p := tbox N lo up leaf (Nd p l r)],
              m_stores := m_stores m @ [(p, int a)]\<rparr>)"
proof -
  have d: "distinct (preorder t)" and lenP: "length P = 2 * N - 1"
    using v by (simp_all add: valid_bvh_def valid_topology_def)
  have enc: "encodes (int N - 1) L R (Nd p l r)" by (rule valid_bvh_encodes[OF v n])
  then have rL: "rd L p = Some (root l)" and rR: "rd R p = Some (root r)"
    and prng: "0 \<le> p" "p < int N - 1" by simp_all
  have ne: "root l \<noteq> root r" using subtree_children_distinct[OF d n] by simp
  have lS: "l \<in> set (subtrees t)" and rS: "r \<in> set (subtrees t)"
    using subtree_children[OF n] by simp_all
  have rl: "0 \<le> root l" "root l < 2 * int N - 1"
    using valid_bvh_node_range[OF v lS root_in_preorder] by simp_all
  have rr: "0 \<le> root r" "root r < 2 * int N - 1"
    using valid_bvh_node_range[OF v rS root_in_preorder] by simp_all
  have bl: "rd (m_boxes m) (root l) = Some (tbox N lo up leaf l)"
    using rl lenB Bl by (simp add: rd_def)
  have br: "rd (m_boxes m) (root r) = Some (tbox N lo up leaf r)"
    using rr lenB Br by (simp add: rd_def)
  have rP: "rd P p = Some (P ! nat p)" using prng lenP by (simp add: rd_def)
  have w: "wr (m_boxes m) p x = Some ((m_boxes m)[nat p := x])" for x
    using prng lenB by (simp add: wr_def)
  have merged: "(if t_current th = root l then
                  do { b \<leftarrow> rd (m_boxes m) (root r); Some (aabb_merge (t_aabb th) b) }
                else if t_current th = root r then
                  do { b \<leftarrow> rd (m_boxes m) (root l); Some (aabb_merge (t_aabb th) b) }
                else Some (t_aabb th)) = Some (tbox N lo up leaf (Nd p l r))"
  proof (cases "t_current th = root l")
    case True
    then show ?thesis using ab Bl br by simp
  next
    case False
    then have c: "t_current th = root r" using cur by simp
    then show ?thesis using ab Br bl False aabb_merge_commute[of "tbox N lo up leaf r"] by simp
  qed
  show ?thesis
    unfolding assign_bounding_boxes_step_def
    by (simp add: pc par rL rR merged rP w Let_def del: tbox.simps)
qed

subsection \<open>When every thread has returned\<close>

lemma child_in_subtree:
  assumes d: "distinct (preorder t)" and n: "Nd p l r \<in> set (subtrees t)"
    and sx: "sx \<in> set (subtrees t)" and u: "u = l \<or> u = r"
    and mem: "root u \<in> set (preorder sx)"
  shows "p \<in> set (preorder sx) \<or> sx = u"
proof -
  have lS: "l \<in> set (subtrees t)" and rS: "r \<in> set (subtrees t)"
    using subtree_children[OF n] by simp_all
  have uS: "u \<in> set (subtrees t)" using u lS rS by auto
  have disj: "set (preorder l) \<inter> set (preorder r) = {}"
    using subtree_children_distinct[OF d n] by simp
  have "root u \<in> set (preorder (Nd p l r))" using u root_in_preorder[of l] root_in_preorder[of r] by auto
  from subtree_laminar[OF d sx n mem this]
  show ?thesis
  proof
    assume "Nd p l r \<in> set (subtrees sx)"
    then have "root (Nd p l r) \<in> set (preorder sx)"
      using subtree_preorder_subset root_in_preorder by blast
    then show ?thesis by simp
  next
    assume "sx \<in> set (subtrees (Nd p l r))"
    then consider "sx = Nd p l r" | "sx \<in> set (subtrees l)" | "sx \<in> set (subtrees r)" by auto
    then show ?thesis
    proof cases
      case 1
      then show ?thesis by simp
    next
      case 2
      from u show ?thesis
      proof
        assume ul: "u = l"
        have "l \<in> set (subtrees sx)" using subtree_closure[OF d sx lS] mem ul by simp
        from subtree_antisym[OF this 2] ul show ?thesis by simp
      next
        assume ur: "u = r"
        have "root r \<in> set (preorder l)" using subtree_preorder_subset[OF 2] mem ur by blast
        with disj root_in_preorder[of r] show ?thesis by blast
      qed
    next
      case 3
      from u show ?thesis
      proof
        assume ul: "u = l"
        have "root l \<in> set (preorder r)" using subtree_preorder_subset[OF 3] mem ul by blast
        with disj root_in_preorder[of l] show ?thesis by blast
      next
        assume ur: "u = r"
        have "r \<in> set (subtrees sx)" using subtree_closure[OF d sx rS] mem ur by simp
        from subtree_antisym[OF this 3] ur show ?thesis by simp
      qed
    qed
  qed
qed

lemma all_returned_inside:
  assumes inv: "bb_inv N P lo up leaf t ths F B" and v: "valid_bvh N L R P t"
    and ret: "\<forall>a < N. t_pc (ths ! a) = Returned"
  shows "s \<in> set (subtrees t) \<Longrightarrow> inside t ths (root s)"
proof (induction s)
  case (Lf k)
  have len: "length ths = N"
    and th: "\<And>b. b < N \<Longrightarrow> inv_thread N P lo up leaf t B b (ths ! b)"
    using inv by (simp_all add: bb_inv_def)
  have "encodes (int N - 1) L R (Lf k)" by (rule valid_bvh_encodes[OF v Lf.prems])
  then have k1: "int N - 1 \<le> k" by simp
  have k2: "k < 2 * int N - 1"
    using valid_bvh_node_range(2)[OF v Lf.prems, of k] by simp
  define a where "a = nat (k - (int N - 1))"
  have a: "a < N" "int N - 1 + int a = k" using k1 k2 by (simp_all add: a_def)
  have pc: "t_pc (ths ! a) \<noteq> Start" using ret a(1) by simp
  from th[OF a(1)] pc obtain s where s: "s \<in> set (subtrees t)" "root s = t_current (ths ! a)"
    "int N - 1 + int a \<in> set (preorder s)" unfolding inv_thread_def by blast
  have "inside t ths k" using a len pc s by (intro insideI[of a ths s]) simp_all
  then show ?case by simp
next
  case (Nd p l r)
  have len: "length ths = N" and fl: "inv_flags N t ths F"
    and th: "\<And>b. b < N \<Longrightarrow> inv_thread N P lo up leaf t B b (ths ! b)"
    using inv by (simp_all add: bb_inv_def)
  have d: "distinct (preorder t)" using v by (simp add: valid_bvh_def valid_topology_def)
  have lS: "l \<in> set (subtrees t)" and rS: "r \<in> set (subtrees t)"
    using subtree_children[OF Nd.prems] by simp_all
  have enc: "encodes (int N - 1) L R (Nd p l r)" by (rule valid_bvh_encodes[OF v Nd.prems])
  then have prng: "0 \<le> p" "p < int N - 1" by simp_all
  have Pl: "rd P (root l) = Some p" and Pr: "rd P (root r) = Some p"
    using v Nd.prems by (auto simp: valid_bvh_def list_all_iff)
  have ne: "root l \<noteq> root r" using subtree_children_distinct[OF d Nd.prems] by simp
  from Nd.IH(1)[OF lS] obtain x sx where x: "x < N" "t_pc (ths ! x) \<noteq> Start"
    and sx: "sx \<in> set (subtrees t)" "root sx = t_current (ths ! x)" "root l \<in> set (preorder sx)"
    using len unfolding inside_def by auto
  from Nd.IH(2)[OF rS] obtain y sy where y: "y < N" "t_pc (ths ! y) \<noteq> Start"
    and sy: "sy \<in> set (subtrees t)" "root sy = t_current (ths ! y)" "root r \<in> set (preorder sy)"
    using len unfolding inside_def by auto
  have cx: "p \<in> set (preorder sx) \<or> sx = l"
    by (rule child_in_subtree[OF d Nd.prems sx(1) _ sx(3)]) simp
  have cy: "p \<in> set (preorder sy) \<or> sy = r"
    by (rule child_in_subtree[OF d Nd.prems sy(1) _ sy(3)]) simp
  show ?case
  proof (rule ccontr)
    assume ni: "\<not> inside t ths (root (Nd p l r))"
    then have nip: "\<not> inside t ths p" by simp
    have "p \<notin> set (preorder sx)" using nip insideI[of x ths sx t p] x sx len by auto
    with cx have ex: "sx = l" by simp
    have "p \<notin> set (preorder sy)" using nip insideI[of y ths sy t p] y sy len by auto
    with cy have ey: "sy = r" by simp
    have xy: "x \<noteq> y" using ex ey sx(2) sy(2) ne by auto
    have px: "t_parent (ths ! x) = p"
      using th[OF x(1)] x(2) Pl ex sx(2) unfolding inv_thread_def by auto
    have py: "t_parent (ths ! y) = p"
      using th[OF y(1)] y(2) Pr ey sy(2) unfolding inv_thread_def by auto
    have wx: "x \<in> waiting ths p" "y \<in> waiting ths p"
      using x(1) y(1) len ret px py by (simp_all add: waiting_def)
    have "inv_flag_at t ths F p" using fl prng by (simp add: inv_flags_def)
    with nip consider "waiting ths p = {}" | a where "waiting ths p = {a}"
      | a b where "waiting ths p = {a, b}" "t_pc (ths ! a) = Merge"
      unfolding inv_flag_at_def by auto
    then show False
    proof cases
      case 1
      with wx show False by simp
    next
      case 2
      with wx xy show False by auto
    next
      case 3
      then have "a \<in> waiting ths p" by simp
      then have "a < N" using len by (simp add: waiting_def)
      with ret 3(2) show False by simp
    qed
  qed
qed

lemma all_returned_boxes:
  assumes inv: "bb_inv N P lo up leaf t ths F B" and v: "valid_bvh N L R P t"
    and ret: "\<forall>a < N. t_pc (ths ! a) = Returned" and s: "s \<in> set (subtrees t)"
  shows "B ! nat (root s) = tbox N lo up leaf s"
proof -
  have len: "length ths = N"
    and th: "\<And>b. b < N \<Longrightarrow> inv_thread N P lo up leaf t B b (ths ! b)"
    using inv by (simp_all add: bb_inv_def)
  have d: "distinct (preorder t)" using v by (simp add: valid_bvh_def valid_topology_def)
  from all_returned_inside[OF inv v ret s] obtain x sx where x: "x < N" "t_pc (ths ! x) \<noteq> Start"
    and sx: "sx \<in> set (subtrees t)" "root sx = t_current (ths ! x)" "root s \<in> set (preorder sx)"
    using len unfolding inside_def by auto
  from th[OF x(1)] x(2) obtain s' where s': "s' \<in> set (subtrees t)"
    "root s' = t_current (ths ! x)"
    "\<forall>u \<in> set (subtrees s'). B ! nat (root u) = tbox N lo up leaf u"
    unfolding inv_thread_def by blast
  have "s' = sx" using subtree_root_unique[OF d s'(1) sx(1)] s'(2) sx(2) by simp
  moreover have "s \<in> set (subtrees sx)" by (rule subtree_closure[OF d sx(1) s sx(3)])
  ultimately show ?thesis using s'(3) by blast
qed

subsection \<open>The traces\<close>

lemma tr_invI:
  assumes "\<And>p. 0 \<le> p \<Longrightarrow> p < int N - 1 \<Longrightarrow> int (length (arrivals_at m p)) = m_flags m ! nat p"
    and "\<And>p. 0 \<le> p \<Longrightarrow> p < int N - 1 \<Longrightarrow>
           stores_at m p = (if inside t ths p then [last (arrivals_at m p)] else [])"
    and "\<And>p a. 0 \<le> p \<Longrightarrow> p < int N - 1 \<Longrightarrow> a < N \<Longrightarrow> t_pc (ths ! a) = Merge \<Longrightarrow>
           t_parent (ths ! a) = p \<Longrightarrow> arrivals_at m p \<noteq> [] \<and> last (arrivals_at m p) = int a"
    and "\<And>a. a < N \<Longrightarrow>
           stores_at m (int N - 1 + int a) = (if t_pc (ths ! a) = Start then [] else [int a])"
  shows "tr_inv N t ths m"
  unfolding tr_inv_def using assms by blast

lemma tr_invD1:
  "tr_inv N t ths m \<Longrightarrow> 0 \<le> p \<Longrightarrow> p < int N - 1 \<Longrightarrow>
     int (length (arrivals_at m p)) = m_flags m ! nat p"
  unfolding tr_inv_def by blast

lemma tr_invD2:
  "tr_inv N t ths m \<Longrightarrow> 0 \<le> p \<Longrightarrow> p < int N - 1 \<Longrightarrow>
     stores_at m p = (if inside t ths p then [last (arrivals_at m p)] else [])"
  unfolding tr_inv_def by blast

lemma tr_invD3:
  "tr_inv N t ths m \<Longrightarrow> 0 \<le> p \<Longrightarrow> p < int N - 1 \<Longrightarrow> a < N \<Longrightarrow> t_pc (ths ! a) = Merge \<Longrightarrow>
     t_parent (ths ! a) = p \<Longrightarrow> arrivals_at m p \<noteq> [] \<and> last (arrivals_at m p) = int a"
  unfolding tr_inv_def by blast

lemma tr_invD4:
  "tr_inv N t ths m \<Longrightarrow> a < N \<Longrightarrow>
     stores_at m (int N - 1 + int a) = (if t_pc (ths ! a) = Start then [] else [int a])"
  unfolding tr_inv_def by blast

lemma sched_step_inv_start:
  assumes inv: "bb_inv N P lo up leaf t ths (m_flags m) (m_boxes m)" and tr: "tr_inv N t ths m"
    and v: "valid_bvh N L R P t" and vi: "valid_inputs N lo up leaf" and a: "a < N"
    and pc: "t_pc (ths ! a) = Start"
  shows "\<exists>th' m'. sched_step (assign_bounding_boxes_step (int N) L R P lo up leaf) (int a) (ths, m)
            = Some (ths[a := th'], m') \<and> t_pc th' = Arrive \<and>
          t_current th' = int N - 1 + int a \<and>
          bb_inv N P lo up leaf t (ths[a := th']) (m_flags m') (m_boxes m') \<and>
          tr_inv N t (ths[a := th']) m'"
proof -
  have len: "length ths = N" and lenB: "length (m_boxes m) = 2 * N - 1"
    using inv by (simp_all add: bb_inv_def)
  have al: "a < length ths" using a len by simp
  note D1 = tr_invD1[OF tr] and D2 = tr_invD2[OF tr] and D3 = tr_invD3[OF tr]
    and D4 = tr_invD4[OF tr]
  define c where "c = int N - 1 + int a"
  define th' :: "'a bb_thread" where "th' = \<lparr>t_pc = Arrive, t_current = c,
      t_parent = P ! nat c, t_aabb = tbox N lo up leaf (Lf c)\<rparr>"
  define m' where "m' = m\<lparr>m_boxes := (m_boxes m)[nat c := tbox N lo up leaf (Lf c)],
      m_stores := m_stores m @ [(c, int a)]\<rparr>"
  have st: "assign_bounding_boxes_step (int N) L R P lo up leaf (int a) (ths ! a) m = Some (th', m')"
    using step_start[OF v vi a lenB pc] by (simp add: th'_def m'_def c_def)
  have ss: "sched_step (assign_bounding_boxes_step (int N) L R P lo up leaf) (int a) (ths, m)
      = Some (ths[a := th'], m')"
    by (rule sched_step_thread[where step = "assign_bounding_boxes_step (int N) L R P lo up leaf", OF al st])
  from bb_inv_start[OF inv v a pc]
  have ins: "\<And>p. p < int N - 1 \<Longrightarrow> inside t (ths[a := th']) p = inside t ths p"
    and inv': "bb_inv N P lo up leaf t (ths[a := th']) (m_flags m') (m_boxes m')"
    by (simp_all add: th'_def m'_def c_def)
  have tr': "tr_inv N t (ths[a := th']) m'"
  proof (rule tr_invI)
    fix p assume p: "0 \<le> p" "p < int N - 1"
    have ap: "arrivals_at m' p = arrivals_at m p" by (simp add: arrivals_at_def m'_def)
    have sp: "stores_at m' p = stores_at m p" using p by (simp add: stores_at_def m'_def c_def)
    show "int (length (arrivals_at m' p)) = m_flags m' ! nat p"
      using D1[OF p] ap by (simp add: m'_def)
    show "stores_at m' p = (if inside t (ths[a := th']) p then [last (arrivals_at m' p)] else [])"
      using D2[OF p] ap sp ins[OF p(2)] by simp
    fix x assume x: "x < N" "t_pc (ths[a := th'] ! x) = Merge" "t_parent (ths[a := th'] ! x) = p"
    have "x \<noteq> a" using x(2) al by (auto simp: th'_def)
    then show "arrivals_at m' p \<noteq> [] \<and> last (arrivals_at m' p) = int x"
      using D3[OF p x(1)] x(2,3) ap by simp
  next
    fix x assume x: "x < N"
    show "stores_at m' (int N - 1 + int x) = (if t_pc (ths[a := th'] ! x) = Start then [] else [int x])"
    proof (cases "x = a")
      case True
      then show ?thesis using D4[OF a] pc al by (simp add: stores_at_def m'_def c_def th'_def)
    next
      case False
      then show ?thesis using D4[OF x] by (simp add: stores_at_def m'_def c_def)
    qed
  qed
  have "t_pc th' = Arrive" "t_current th' = int N - 1 + int a" by (simp_all add: th'_def c_def)
  then show ?thesis using ss inv' tr' by blast
qed

lemma sched_step_inv_arrive_root:
  assumes inv: "bb_inv N P lo up leaf t ths (m_flags m) (m_boxes m)" and tr: "tr_inv N t ths m"
    and a: "a < N" and pc: "t_pc (ths ! a) = Arrive" and par: "t_parent (ths ! a) = - 1"
  shows "\<exists>th' m'. sched_step (assign_bounding_boxes_step (int N) L R P lo up leaf) (int a) (ths, m)
            = Some (ths[a := th'], m') \<and> t_pc th' = Returned \<and>
          bb_inv N P lo up leaf t (ths[a := th']) (m_flags m') (m_boxes m') \<and>
          tr_inv N t (ths[a := th']) m'"
proof -
  have len: "length ths = N" using inv by (simp add: bb_inv_def)
  have al: "a < length ths" using a len by simp
  note D1 = tr_invD1[OF tr] and D2 = tr_invD2[OF tr] and D3 = tr_invD3[OF tr]
    and D4 = tr_invD4[OF tr]
  define th' where "th' = (ths ! a)\<lparr>t_pc := Returned\<rparr>"
  define ths' where "ths' = ths[a := th']"
  have st: "assign_bounding_boxes_step (int N) L R P lo up leaf (int a) (ths ! a) m
      = Some (th', m)"
    unfolding th'_def by (rule step_arrive_root[OF pc par])
  have ss: "sched_step (assign_bounding_boxes_step (int N) L R P lo up leaf) (int a) (ths, m)
      = Some (ths', m)"
    unfolding ths'_def by (rule sched_step_thread[where step = "assign_bounding_boxes_step (int N) L R P lo up leaf", OF al st])
  have inv': "bb_inv N P lo up leaf t ths' (m_flags m) (m_boxes m)"
    unfolding ths'_def th'_def by (rule bb_inv_arrive_root[OF inv a pc par])
  have ins: "inside t ths' p = inside t ths p" for p
    unfolding ths'_def th'_def using al pc by (intro inside_update_pc) simp_all
  have tr': "tr_inv N t ths' m"
  proof (rule tr_invI)
    fix p assume p: "0 \<le> p" "p < int N - 1"
    show "int (length (arrivals_at m p)) = m_flags m ! nat p" by (rule D1[OF p])
    show "stores_at m p = (if inside t ths' p then [last (arrivals_at m p)] else [])"
      using D2[OF p] ins by simp
    fix x assume x: "x < N" "t_pc (ths' ! x) = Merge" "t_parent (ths' ! x) = p"
    have "x \<noteq> a" using x(2) al by (auto simp: ths'_def th'_def)
    then show "arrivals_at m p \<noteq> [] \<and> last (arrivals_at m p) = int x"
      using D3[OF p x(1)] x(2,3) by (simp add: ths'_def)
  next
    fix x assume x: "x < N"
    show "stores_at m (int N - 1 + int x) = (if t_pc (ths' ! x) = Start then [] else [int x])"
    proof (cases "x = a")
      case True
      then show ?thesis using D4[OF a] pc al by (simp add: ths'_def th'_def)
    next
      case False
      then show ?thesis using D4[OF x] by (simp add: ths'_def)
    qed
  qed
  have "t_pc th' = Returned" by (simp add: th'_def)
  then show ?thesis using ss inv' tr' unfolding ths'_def by blast
qed

lemma sched_step_inv_arrive:
  assumes inv: "bb_inv N P lo up leaf t ths (m_flags m) (m_boxes m)" and tr: "tr_inv N t ths m"
    and v: "valid_bvh N L R P t" and a: "a < N"
    and pc: "t_pc (ths ! a) = Arrive" and par: "t_parent (ths ! a) \<noteq> - 1"
  shows "\<exists>th' m'. sched_step (assign_bounding_boxes_step (int N) L R P lo up leaf) (int a) (ths, m)
            = Some (ths[a := th'], m') \<and> (t_pc th' = Merge \<or> t_pc th' = Returned) \<and>
          t_current th' = t_current (ths ! a) \<and>
          bb_inv N P lo up leaf t (ths[a := th']) (m_flags m') (m_boxes m') \<and>
          tr_inv N t (ths[a := th']) m'"
proof -
  have len: "length ths = N" and lenF: "length (m_flags m) = N - 1"
    using inv by (simp_all add: bb_inv_def)
  have al: "a < length ths" using a len by simp
  note D1 = tr_invD1[OF tr] and D2 = tr_invD2[OF tr] and D3 = tr_invD3[OF tr]
    and D4 = tr_invD4[OF tr]
  define p where "p = t_parent (ths ! a)"
  define q where "q = (if m_flags m ! nat p = 1 then Merge else Returned)"
  define th' where "th' = (ths ! a)\<lparr>t_pc := q\<rparr>"
  define ths' where "ths' = ths[a := th']"
  define m' where "m' = m\<lparr>m_flags := (m_flags m)[nat p := m_flags m ! nat p + 1],
      m_arrivals := m_arrivals m @ [(p, int a)]\<rparr>"
  have pp: "t_parent (ths ! a) = p" "p \<noteq> - 1" using par by (simp_all add: p_def)
  from bb_inv_arrive[OF inv v a pc pp]
  have prng: "0 \<le> p" "p < int N - 1" and ni: "\<not> inside t ths p"
    and nomerge: "\<And>x. x < N \<Longrightarrow> t_pc (ths ! x) = Merge \<Longrightarrow> t_parent (ths ! x) \<noteq> p"
    and inv': "bb_inv N P lo up leaf t ths' (m_flags m') (m_boxes m')"
    by (simp_all add: ths'_def th'_def m'_def q_def)
  have pl: "nat p < length (m_flags m)" using prng lenF by linarith
  have st: "assign_bounding_boxes_step (int N) L R P lo up leaf (int a) (ths ! a) m
      = Some (th', m')"
    using step_arrive[OF pc pp prng(1) pl] by (simp add: q_def m'_def th'_def)
  have ss: "sched_step (assign_bounding_boxes_step (int N) L R P lo up leaf) (int a) (ths, m)
      = Some (ths', m')"
    unfolding ths'_def by (rule sched_step_thread[where step = "assign_bounding_boxes_step (int N) L R P lo up leaf", OF al st])
  have qs: "q \<noteq> Start" by (simp add: q_def)
  have ins: "inside t ths' r = inside t ths r" for r
    unfolding ths'_def th'_def using al pc qs by (intro inside_update_pc) simp_all
  have tr': "tr_inv N t ths' m'"
  proof (rule tr_invI)
    fix r assume r: "0 \<le> r" "r < int N - 1"
    have ar: "arrivals_at m' r = (if r = p then arrivals_at m r @ [int a] else arrivals_at m r)"
      by (simp add: arrivals_at_def m'_def)
    have sr: "stores_at m' r = stores_at m r" by (simp add: stores_at_def m'_def)
    have nn: "nat p = nat r \<longleftrightarrow> r = p" using r prng by linarith
    have fr: "m_flags m' ! nat r = (if r = p then m_flags m ! nat p + 1 else m_flags m ! nat r)"
      using pl by (simp add: m'_def nth_list_update nn)
    show "int (length (arrivals_at m' r)) = m_flags m' ! nat r"
      using D1[OF r] ar fr by (cases "r = p") simp_all
    show "stores_at m' r = (if inside t ths' r then [last (arrivals_at m' r)] else [])"
    proof (cases "r = p")
      case True
      then show ?thesis using D2[OF r] sr ins ni by simp
    next
      case False
      then show ?thesis using D2[OF r] sr ins ar by simp
    qed
    fix x assume x: "x < N" "t_pc (ths' ! x) = Merge" "t_parent (ths' ! x) = r"
    show "arrivals_at m' r \<noteq> [] \<and> last (arrivals_at m' r) = int x"
    proof (cases "x = a")
      case True
      then have "r = p" using x(3) al pp(1) by (simp add: ths'_def th'_def)
      then show ?thesis using ar True by simp
    next
      case False
      then have o: "t_pc (ths ! x) = Merge" "t_parent (ths ! x) = r"
        using x(2,3) by (simp_all add: ths'_def)
      from nomerge[OF x(1) o(1)] o(2) have "r \<noteq> p" by simp
      then show ?thesis using D3[OF r x(1) o] ar by simp
    qed
  next
    fix x assume x: "x < N"
    have sx: "stores_at m' (int N - 1 + int x) = stores_at m (int N - 1 + int x)"
      by (simp add: stores_at_def m'_def)
    show "stores_at m' (int N - 1 + int x) = (if t_pc (ths' ! x) = Start then [] else [int x])"
    proof (cases "x = a")
      case True
      then show ?thesis using D4[OF a] pc al qs sx by (simp add: ths'_def th'_def)
    next
      case False
      then show ?thesis using D4[OF x] sx by (simp add: ths'_def)
    qed
  qed
  have "(t_pc th' = Merge \<or> t_pc th' = Returned) \<and> t_current th' = t_current (ths ! a)"
    by (simp add: th'_def q_def)
  then show ?thesis using ss inv' tr' unfolding ths'_def by blast
qed

lemma sched_step_inv_merge:
  assumes inv: "bb_inv N P lo up leaf t ths (m_flags m) (m_boxes m)" and tr: "tr_inv N t ths m"
    and v: "valid_bvh N L R P t" and a: "a < N"
    and pc: "t_pc (ths ! a) = Merge"
  shows "\<exists>th' m' l r. sched_step (assign_bounding_boxes_step (int N) L R P lo up leaf) (int a) (ths, m)
            = Some (ths[a := th'], m') \<and> t_pc th' = Arrive \<and>
          Nd (t_current th') l r \<in> set (subtrees t) \<and>
          (t_current (ths ! a) = root l \<or> t_current (ths ! a) = root r) \<and>
          bb_inv N P lo up leaf t (ths[a := th']) (m_flags m') (m_boxes m') \<and>
          tr_inv N t (ths[a := th']) m'"
proof -
  have len: "length ths = N" and lenB: "length (m_boxes m) = 2 * N - 1"
    using inv by (simp_all add: bb_inv_def)
  have al: "a < length ths" using a len by simp
  note D1 = tr_invD1[OF tr] and D2 = tr_invD2[OF tr] and D3 = tr_invD3[OF tr]
    and D4 = tr_invD4[OF tr]
  define p where "p = t_parent (ths ! a)"
  have pp: "t_parent (ths ! a) = p" by (simp add: p_def)
  from bb_inv_merge[OF inv v a pc pp] obtain l r where
    n: "Nd p l r \<in> set (subtrees t)" and prng: "0 \<le> p" "p < int N - 1"
    and ni: "\<not> inside t ths p"
    and cur: "t_current (ths ! a) = root l \<or> t_current (ths ! a) = root r"
    and Bl: "m_boxes m ! nat (root l) = tbox N lo up leaf l"
    and Br: "m_boxes m ! nat (root r) = tbox N lo up leaf r"
    and ab: "t_aabb (ths ! a) = m_boxes m ! nat (t_current (ths ! a))"
    and insq: "\<forall>q. q \<noteq> p \<longrightarrow> inside t
       (ths[a := \<lparr>t_pc = Arrive, t_current = p, t_parent = P ! nat p,
                   t_aabb = tbox N lo up leaf (Nd p l r)\<rparr>]) q = inside t ths q"
    and insp: "inside t
       (ths[a := \<lparr>t_pc = Arrive, t_current = p, t_parent = P ! nat p,
                   t_aabb = tbox N lo up leaf (Nd p l r)\<rparr>]) p"
    and inv0: "bb_inv N P lo up leaf t
       (ths[a := \<lparr>t_pc = Arrive, t_current = p, t_parent = P ! nat p,
                   t_aabb = tbox N lo up leaf (Nd p l r)\<rparr>])
       (m_flags m) ((m_boxes m)[nat p := tbox N lo up leaf (Nd p l r)])"
    by blast
  define th' :: "'a bb_thread" where "th' = \<lparr>t_pc = Arrive, t_current = p, t_parent = P ! nat p,
                   t_aabb = tbox N lo up leaf (Nd p l r)\<rparr>"
  define m' where "m' = m\<lparr>m_boxes := (m_boxes m)[nat p := tbox N lo up leaf (Nd p l r)],
      m_stores := m_stores m @ [(p, int a)]\<rparr>"
  have st: "assign_bounding_boxes_step (int N) L R P lo up leaf (int a) (ths ! a) m = Some (th', m')"
    unfolding th'_def m'_def by (rule step_merge[OF v n lenB pc pp cur Bl Br ab])
  have ss: "sched_step (assign_bounding_boxes_step (int N) L R P lo up leaf) (int a) (ths, m)
      = Some (ths[a := th'], m')"
    by (rule sched_step_thread[where step = "assign_bounding_boxes_step (int N) L R P lo up leaf", OF al st])
  have insq': "\<And>q. q \<noteq> p \<Longrightarrow> inside t (ths[a := th']) q = inside t ths q"
    using insq unfolding th'_def by blast
  have insp': "inside t (ths[a := th']) p" using insp unfolding th'_def .
  have inv': "bb_inv N P lo up leaf t (ths[a := th']) (m_flags m') (m_boxes m')"
    using inv0 unfolding th'_def m'_def by simp
  have la: "arrivals_at m p \<noteq> [] \<and> last (arrivals_at m p) = int a"
    by (rule D3[OF prng a pc pp])
  have tr': "tr_inv N t (ths[a := th']) m'"
  proof (rule tr_invI)
    fix q assume q: "0 \<le> q" "q < int N - 1"
    have ap: "arrivals_at m' q = arrivals_at m q" by (simp add: arrivals_at_def m'_def)
    have sp: "stores_at m' q = (if q = p then stores_at m q @ [int a] else stores_at m q)"
      by (simp add: stores_at_def m'_def)
    show "int (length (arrivals_at m' q)) = m_flags m' ! nat q"
      using D1[OF q] ap by (simp add: m'_def)
    show "stores_at m' q = (if inside t (ths[a := th']) q then [last (arrivals_at m' q)] else [])"
    proof (cases "q = p")
      case True
      then show ?thesis using D2[OF prng] ni insp' la ap sp by simp
    next
      case False
      then show ?thesis using D2[OF q] insq'[OF False] ap sp by simp
    qed
    fix x assume x: "x < N" "t_pc (ths[a := th'] ! x) = Merge" "t_parent (ths[a := th'] ! x) = q"
    have "x \<noteq> a" using x(2) al by (auto simp: th'_def)
    then show "arrivals_at m' q \<noteq> [] \<and> last (arrivals_at m' q) = int x"
      using D3[OF q x(1)] x(2,3) ap by simp
  next
    fix x assume x: "x < N"
    have sx: "stores_at m' (int N - 1 + int x) = stores_at m (int N - 1 + int x)"
      using prng by (simp add: stores_at_def m'_def)
    show "stores_at m' (int N - 1 + int x) = (if t_pc (ths[a := th'] ! x) = Start then [] else [int x])"
    proof (cases "x = a")
      case True
      then show ?thesis using D4[OF a] pc al sx by (simp add: th'_def)
    next
      case False
      then show ?thesis using D4[OF x] sx by simp
    qed
  qed
  have "t_pc th' = Arrive" "t_current th' = p" by (simp_all add: th'_def)
  then show ?thesis using ss inv' tr' n cur by blast
qed

subsection \<open>Progress\<close>

lemma node_size_subtree:
  assumes "distinct (preorder t)" "s \<in> set (subtrees t)"
  shows "node_size t (root s) = length (preorder s)"
proof -
  have "distinct (map root (subtrees t))" using assms(1) by (simp only: map_root_subtrees)
  from find_distinct_map[OF this assms(2)] show ?thesis by (simp add: node_size_def)
qed

lemma subtree_length_le: "s \<in> set (subtrees t) \<Longrightarrow> length (preorder s) \<le> length (preorder t)"
  by (induction t) auto

lemma preorder_length_pos: "0 < length (preorder s)"
  by (cases s) simp_all

lemma sched_step_inv:
  assumes inv: "bb_inv N P lo up leaf t ths (m_flags m) (m_boxes m)" and tr: "tr_inv N t ths m"
    and v: "valid_bvh N L R P t" and vi: "valid_inputs N lo up leaf" and a: "a < N"
  shows "\<exists>th' m'. sched_step (assign_bounding_boxes_step (int N) L R P lo up leaf) (int a) (ths, m)
            = Some (ths[a := th'], m') \<and>
          bb_inv N P lo up leaf t (ths[a := th']) (m_flags m') (m_boxes m') \<and>
          tr_inv N t (ths[a := th']) m' \<and>
          (t_pc (ths ! a) \<noteq> Returned \<longrightarrow> steps_left t th' < steps_left t (ths ! a)) \<and>
          (t_pc (ths ! a) = Returned \<longrightarrow> th' = ths ! a)"
proof (cases "t_pc (ths ! a)")
  case Start
  have d: "distinct (preorder t)" using v by (simp add: valid_bvh_def valid_topology_def)
  from sched_step_inv_start[OF inv tr v vi a Start] obtain th' m' where
    r: "sched_step (assign_bounding_boxes_step (int N) L R P lo up leaf) (int a) (ths, m)
            = Some (ths[a := th'], m')" "t_pc th' = Arrive" "t_current th' = int N - 1 + int a"
       "bb_inv N P lo up leaf t (ths[a := th']) (m_flags m') (m_boxes m')"
       "tr_inv N t (ths[a := th']) m'" by blast
  have "node_size t (int N - 1 + int a) = 1"
    using node_size_subtree[OF d valid_bvh_leaf[OF v a]] by simp
  moreover obtain k where "length (preorder t) = Suc k"
    using preorder_length_pos[of t] by (cases "length (preorder t)") auto
  ultimately have "steps_left t th' < steps_left t (ths ! a)"
    using r(2,3) Start by (simp add: steps_left_def)
  then show ?thesis using r Start by (intro exI[of _ th'] exI[of _ m']) simp
next
  case Arrive
  show ?thesis
  proof (cases "t_parent (ths ! a) = - 1")
    case True
    from sched_step_inv_arrive_root[OF inv tr a Arrive True] obtain th' m' where
      r: "sched_step (assign_bounding_boxes_step (int N) L R P lo up leaf) (int a) (ths, m)
            = Some (ths[a := th'], m')" "t_pc th' = Returned"
       "bb_inv N P lo up leaf t (ths[a := th']) (m_flags m') (m_boxes m')"
       "tr_inv N t (ths[a := th']) m'" by blast
    have "steps_left t th' < steps_left t (ths ! a)"
      using r(2) Arrive by (simp add: steps_left_def)
    then show ?thesis using r Arrive by (intro exI[of _ th'] exI[of _ m']) simp
  next
    case False
    from sched_step_inv_arrive[OF inv tr v a Arrive False] obtain th' m' where
      r: "sched_step (assign_bounding_boxes_step (int N) L R P lo up leaf) (int a) (ths, m)
            = Some (ths[a := th'], m')" "t_pc th' = Merge \<or> t_pc th' = Returned"
       "t_current th' = t_current (ths ! a)"
       "bb_inv N P lo up leaf t (ths[a := th']) (m_flags m') (m_boxes m')"
       "tr_inv N t (ths[a := th']) m'" by blast
    have "steps_left t th' < steps_left t (ths ! a)"
      using r(2,3) Arrive by (auto simp: steps_left_def)
    then show ?thesis using r Arrive by (intro exI[of _ th'] exI[of _ m']) simp
  qed
next
  case Merge
  have d: "distinct (preorder t)" using v by (simp add: valid_bvh_def valid_topology_def)
  from sched_step_inv_merge[OF inv tr v a Merge] obtain th' m' l r where
    r: "sched_step (assign_bounding_boxes_step (int N) L R P lo up leaf) (int a) (ths, m)
            = Some (ths[a := th'], m')" "t_pc th' = Arrive"
       "Nd (t_current th') l r \<in> set (subtrees t)"
       "t_current (ths ! a) = root l \<or> t_current (ths ! a) = root r"
       "bb_inv N P lo up leaf t (ths[a := th']) (m_flags m') (m_boxes m')"
       "tr_inv N t (ths[a := th']) m'" by blast
  have lr: "l \<in> set (subtrees t)" "r \<in> set (subtrees t)"
    using subtree_children[OF r(3)] by simp_all
  have np: "node_size t (t_current th') = 1 + length (preorder l) + length (preorder r)"
    using node_size_subtree[OF d r(3)] by simp
  have le: "1 + length (preorder l) + length (preorder r) \<le> length (preorder t)"
    using subtree_length_le[OF r(3)] by simp
  have "node_size t (t_current (ths ! a)) = length (preorder l) \<or>
        node_size t (t_current (ths ! a)) = length (preorder r)"
    using r(4) node_size_subtree[OF d lr(1)] node_size_subtree[OF d lr(2)] by auto
  moreover have "0 < length (preorder l)" "0 < length (preorder r)"
    by (rule preorder_length_pos)+
  ultimately have "steps_left t th' < steps_left t (ths ! a)"
    using r(2) Merge np le by (auto simp: steps_left_def)
  then show ?thesis using r Merge by (intro exI[of _ th'] exI[of _ m']) simp
next
  case Returned
  have len: "length ths = N" using inv by (simp add: bb_inv_def)
  have "assign_bounding_boxes_step (int N) L R P lo up leaf (int a) (ths ! a) m = Some (ths ! a, m)"
    by (rule step_returned[OF Returned])
  from sched_step_thread[where step = "assign_bounding_boxes_step (int N) L R P lo up leaf", OF _ this]
    a len
  have "sched_step (assign_bounding_boxes_step (int N) L R P lo up leaf) (int a) (ths, m)
      = Some (ths[a := ths ! a], m)" by simp
  then show ?thesis using inv tr Returned by (intro exI[of _ "ths ! a"] exI[of _ m]) simp
qed

lemma sched_step_tid:
  assumes "sched_step step tid (ths, m) = Some s'"
  shows "0 \<le> tid \<and> nat tid < length ths"
  using assms by (auto simp: sched_step_def rd_def split: if_splits)

lemma run_threads_inv:
  assumes v: "valid_bvh N L R P t" and vi: "valid_inputs N lo up leaf"
  shows "run_threads (sched_step (assign_bounding_boxes_step (int N) L R P lo up leaf)) sched (ths, m)
           = Some (ths', m') \<Longrightarrow>
         bb_inv N P lo up leaf t ths (m_flags m) (m_boxes m) \<Longrightarrow> tr_inv N t ths m \<Longrightarrow>
         bb_inv N P lo up leaf t ths' (m_flags m') (m_boxes m') \<and> tr_inv N t ths' m'"
proof (induction sched arbitrary: ths m)
  case Nil
  then show ?case by simp
next
  case (Cons tid sched)
  from Cons.prems(1) obtain s1 where
    s1: "sched_step (assign_bounding_boxes_step (int N) L R P lo up leaf) tid (ths, m) = Some s1"
    and r: "run_threads (sched_step (assign_bounding_boxes_step (int N) L R P lo up leaf)) sched s1
              = Some (ths', m')"
    by (auto split: option.splits)
  have len: "length ths = N" using Cons.prems(2) by (simp add: bb_inv_def)
  from sched_step_tid[OF s1] len have tid: "int (nat tid) = tid" "nat tid < N" by simp_all
  from sched_step_inv[OF Cons.prems(2,3) v vi tid(2)] s1
  obtain ths1 m1 where "s1 = (ths1, m1)"
    "bb_inv N P lo up leaf t ths1 (m_flags m1) (m_boxes m1)" "tr_inv N t ths1 m1"
    unfolding tid(1) by auto
  with Cons.IH[of ths1 m1] r show ?case by simp
qed

lemma bb_inv_init:
  assumes "ths = replicate N th0" "t_pc th0 = Start" "F = replicate (N - 1) 0"
    "length B = 2 * N - 1"
  shows "bb_inv N P lo up leaf t ths F B"
proof -
  have pcs: "\<And>a. a < N \<Longrightarrow> t_pc (ths ! a) = Start" using assms by simp
  have ni: "\<not> inside t ths p" for p using assms by (auto simp: inside_def)
  have w: "waiting ths p = {}" for p using assms by (auto simp: waiting_def)
  have "inv_flags N t ths F"
    unfolding inv_flags_def inv_flag_at_def using ni w assms(3) by auto
  moreover have "inv_front N t ths" unfolding inv_front_def using pcs by simp
  moreover have "\<forall>a < N. inv_thread N P lo up leaf t B a (ths ! a)"
    unfolding inv_thread_def using pcs by simp
  ultimately show ?thesis using assms by (simp add: bb_inv_def)
qed

lemma tr_inv_init:
  assumes "ths = replicate N th0" "t_pc th0 = Start" "m_flags m = replicate (N - 1) 0"
    "m_arrivals m = []" "m_stores m = []"
  shows "tr_inv N t ths m"
proof (rule tr_invI)
  have ni: "\<not> inside t ths p" for p using assms by (auto simp: inside_def)
  fix p assume p: "0 \<le> p" "p < int N - 1"
  then have "nat p < N - 1" by linarith
  then show "int (length (arrivals_at m p)) = m_flags m ! nat p"
    using assms by (simp add: arrivals_at_def)
  show "stores_at m p = (if inside t ths p then [last (arrivals_at m p)] else [])"
    using ni assms by (simp add: stores_at_def)
  fix a assume "a < N" "t_pc (ths ! a) = Merge"
  then show "arrivals_at m p \<noteq> [] \<and> last (arrivals_at m p) = int a" using assms by simp
next
  fix a assume "a < N"
  then show "stores_at m (int N - 1 + int a) = (if t_pc (ths ! a) = Start then [] else [int a])"
    using assms by (simp add: stores_at_def)
qed

lemma run_one_thread:
  assumes v: "valid_bvh N L R P t" and vi: "valid_inputs N lo up leaf" and a: "a < N"
  shows "bb_inv N P lo up leaf t ths (m_flags m) (m_boxes m) \<Longrightarrow> tr_inv N t ths m \<Longrightarrow>
         steps_left t (ths ! a) \<le> K \<Longrightarrow>
         \<exists>th' m'. run_threads (sched_step (assign_bounding_boxes_step (int N) L R P lo up leaf))
              (replicate K (int a)) (ths, m) = Some (ths[a := th'], m') \<and>
            t_pc th' = Returned \<and>
            bb_inv N P lo up leaf t (ths[a := th']) (m_flags m') (m_boxes m') \<and>
            tr_inv N t (ths[a := th']) m'"
proof (induction K arbitrary: ths m)
  case 0
  then have "t_pc (ths ! a) = Returned" by (simp add: steps_left_def split: pc.splits)
  then show ?case using 0 by (intro exI[of _ "ths ! a"] exI[of _ m]) simp
next
  case (Suc K)
  have len: "length ths = N" using Suc.prems(1) by (simp add: bb_inv_def)
  from sched_step_inv[OF Suc.prems(1,2) v vi a] obtain th1 m1 where
    s: "sched_step (assign_bounding_boxes_step (int N) L R P lo up leaf) (int a) (ths, m)
            = Some (ths[a := th1], m1)"
    and i1: "bb_inv N P lo up leaf t (ths[a := th1]) (m_flags m1) (m_boxes m1)"
    and t1: "tr_inv N t (ths[a := th1]) m1"
    and pr: "t_pc (ths ! a) \<noteq> Returned \<longrightarrow> steps_left t th1 < steps_left t (ths ! a)"
            "t_pc (ths ! a) = Returned \<longrightarrow> th1 = ths ! a"
    by blast
  have "steps_left t th1 \<le> K"
  proof (cases "t_pc (ths ! a) = Returned")
    case True
    then show ?thesis using pr(2) by (simp add: steps_left_def)
  next
    case False
    then show ?thesis using pr(1) Suc.prems(3) by simp
  qed
  then have "steps_left t (ths[a := th1] ! a) \<le> K" using a len by simp
  from Suc.IH[OF i1 t1 this] obtain th' m' where
    r: "run_threads (sched_step (assign_bounding_boxes_step (int N) L R P lo up leaf))
              (replicate K (int a)) (ths[a := th1], m1) = Some (ths[a := th1, a := th'], m')"
       "t_pc th' = Returned"
       "bb_inv N P lo up leaf t (ths[a := th1, a := th']) (m_flags m') (m_boxes m')"
       "tr_inv N t (ths[a := th1, a := th']) m'" by blast
  then show ?case using s by (intro exI[of _ th'] exI[of _ m']) simp
qed

lemma steps_left_le:
  "steps_left t th \<le> 2 * length (preorder t) + 2"
  by (cases "t_pc th"; simp add: steps_left_def; arith)

lemma run_sequential:
  assumes v: "valid_bvh N L R P t" and vi: "valid_inputs N lo up leaf"
  shows "n \<le> N \<Longrightarrow> bb_inv N P lo up leaf t ths (m_flags m) (m_boxes m) \<Longrightarrow> tr_inv N t ths m \<Longrightarrow>
         \<exists>ths' m'. run_threads (sched_step (assign_bounding_boxes_step (int N) L R P lo up leaf))
              (concat (map (\<lambda>a. replicate (4 * N) (int a)) [0..<n])) (ths, m) = Some (ths', m') \<and>
            (\<forall>a < n. t_pc (ths' ! a) = Returned) \<and>
            bb_inv N P lo up leaf t ths' (m_flags m') (m_boxes m') \<and> tr_inv N t ths' m'"
proof (induction n)
  case 0
  then show ?case by simp
next
  case (Suc n)
  from Suc obtain ths1 m1 where
    r1: "run_threads (sched_step (assign_bounding_boxes_step (int N) L R P lo up leaf))
              (concat (map (\<lambda>a. replicate (4 * N) (int a)) [0..<n])) (ths, m) = Some (ths1, m1)"
    and ret: "\<forall>a < n. t_pc (ths1 ! a) = Returned"
    and i1: "bb_inv N P lo up leaf t ths1 (m_flags m1) (m_boxes m1)" and t1: "tr_inv N t ths1 m1"
    by auto
  have n: "n < N" using Suc.prems(1) by simp
  have len: "length ths1 = N" using i1 by (simp add: bb_inv_def)
  have "length (preorder t) = 2 * N - 1" "1 \<le> N"
    using v by (simp_all add: valid_bvh_def valid_topology_def)
  then have "steps_left t (ths1 ! n) \<le> 4 * N"
    using steps_left_le[of t "ths1 ! n"] by simp
  from run_one_thread[OF v vi n i1 t1 this] obtain th' m' where
    r2: "run_threads (sched_step (assign_bounding_boxes_step (int N) L R P lo up leaf))
              (replicate (4 * N) (int n)) (ths1, m1) = Some (ths1[n := th'], m')"
       "t_pc th' = Returned"
       "bb_inv N P lo up leaf t (ths1[n := th']) (m_flags m') (m_boxes m')"
       "tr_inv N t (ths1[n := th']) m'" by blast
  have "run_threads (sched_step (assign_bounding_boxes_step (int N) L R P lo up leaf))
              (concat (map (\<lambda>a. replicate (4 * N) (int a)) [0..<Suc n])) (ths, m)
          = Some (ths1[n := th'], m')"
    using r1 r2(1) by (simp add: run_threads_append)
  moreover have "\<forall>a < Suc n. t_pc (ths1[n := th'] ! a) = Returned"
    using ret r2(2) n len by (auto simp: nth_list_update less_Suc_eq)
  ultimately show ?case using r2(3,4) by blast
qed

subsection \<open>The whole launch\<close>

lemma kernel_runs:
  assumes "assign_bounding_boxes_kernel num_leaves L R P lo up leaf dim sched m = Some m'"
  shows "\<exists>ths'. run_threads (sched_step (assign_bounding_boxes_step num_leaves L R P lo up leaf)) sched
           (replicate dim \<lparr>t_pc = Start, t_current = 0, t_parent = 0,
              t_aabb = \<lparr>lower = (0, 0, 0), upper = (0, 0, 0)\<rparr>\<rparr>, m) = Some (ths', m') \<and>
         list_all (\<lambda>th. t_pc th = Returned) ths'"
  using assms unfolding assign_bounding_boxes_kernel_def
  by (auto simp: bind_eq_Some_conv split: if_splits)

lemma kernel_final:
  assumes v: "valid_bvh N L R P t" and vi: "valid_inputs N lo up leaf"
    and m: "m_flags m = replicate (N - 1) 0" "length (m_boxes m) = 2 * N - 1"
       "m_arrivals m = []" "m_stores m = []"
    and k: "assign_bounding_boxes_kernel (int N) L R P lo up leaf N sched m = Some m'"
  shows "length (m_boxes m') = 2 * N - 1"
    and "\<And>s. s \<in> set (subtrees t) \<Longrightarrow> m_boxes m' ! nat (root s) = tbox N lo up leaf s"
    and "m_flags m' = replicate (N - 1) 2"
    and "\<And>p. 0 \<le> p \<Longrightarrow> p < int N - 1 \<Longrightarrow>
           \<exists>x y. arrivals_at m' p = [x, y] \<and> stores_at m' p = [y]"
proof -
  define th0 :: "'a bb_thread" where "th0 = \<lparr>t_pc = Start, t_current = 0, t_parent = 0,
              t_aabb = \<lparr>lower = (0, 0, 0), upper = (0, 0, 0)\<rparr>\<rparr>"
  from kernel_runs[OF k] obtain ths' where
    r: "run_threads (sched_step (assign_bounding_boxes_step (int N) L R P lo up leaf)) sched
           (replicate N th0, m) = Some (ths', m')"
    and ret: "list_all (\<lambda>th. t_pc th = Returned) ths'"
    unfolding th0_def by auto
  have i0: "bb_inv N P lo up leaf t (replicate N th0) (m_flags m) (m_boxes m)"
    by (rule bb_inv_init[OF refl _ m(1,2)]) (simp add: th0_def)
  have t0: "tr_inv N t (replicate N th0) m"
    by (rule tr_inv_init[OF refl _ m(1,3,4)]) (simp add: th0_def)
  from run_threads_inv[OF v vi r i0 t0]
  have inv: "bb_inv N P lo up leaf t ths' (m_flags m') (m_boxes m')" and tr: "tr_inv N t ths' m'"
    by simp_all
  have len: "length ths' = N" and lenF: "length (m_flags m') = N - 1"
    and fl: "inv_flags N t ths' (m_flags m')"
    using inv by (simp_all add: bb_inv_def)
  have ret': "\<forall>a < N. t_pc (ths' ! a) = Returned" using ret len by (simp add: list_all_length)
  show "length (m_boxes m') = 2 * N - 1" using inv by (simp add: bb_inv_def)
  show "m_boxes m' ! nat (root s) = tbox N lo up leaf s" if "s \<in> set (subtrees t)" for s
    by (rule all_returned_boxes[OF inv v ret' that])
  have vt: "valid_topology N L R t" using v by (simp add: valid_bvh_def)
  have two: "m_flags m' ! nat p = 2 \<and> inside t ths' p" if p: "0 \<le> p" "p < int N - 1" for p
  proof -
    from valid_internal_subtree[OF vt p] obtain l r where "Nd p l r \<in> set (subtrees t)" by blast
    from all_returned_inside[OF inv v ret' this] have "inside t ths' p" by simp
    moreover have "inv_flag_at t ths' (m_flags m') p" using fl p by (simp add: inv_flags_def)
    ultimately show ?thesis by (simp add: inv_flag_at_def)
  qed
  show "m_flags m' = replicate (N - 1) 2"
  proof (rule nth_equalityI)
    show "length (m_flags m') = length (replicate (N - 1) (2 :: int))" using lenF by simp
    fix i assume "i < length (m_flags m')"
    then have i: "i < N - 1" using lenF by simp
    then have "0 \<le> int i" "int i < int N - 1" by linarith+
    from two[OF this] i show "m_flags m' ! i = replicate (N - 1) 2 ! i" by simp
  qed
  show "\<exists>x y. arrivals_at m' p = [x, y] \<and> stores_at m' p = [y]"
    if p: "0 \<le> p" "p < int N - 1" for p
  proof -
    from two[OF p] tr_invD1[OF tr p] tr_invD2[OF tr p]
    have l2: "length (arrivals_at m' p) = 2" and st: "stores_at m' p = [last (arrivals_at m' p)]"
      by simp_all
    from l2 obtain x y where xy: "arrivals_at m' p = [x, y]"
      by (cases "arrivals_at m' p"; simp) (metis length_0_conv length_Suc_conv)
    then show ?thesis using st by simp
  qed
qed

lemma kernel_completes:
  assumes v: "valid_bvh N L R P t" and vi: "valid_inputs N lo up leaf"
    and m: "m_flags m = replicate (N - 1) 0" "length (m_boxes m) = 2 * N - 1"
       "m_arrivals m = []" "m_stores m = []"
  shows "\<exists>m'. assign_bounding_boxes_kernel (int N) L R P lo up leaf N (sequential_schedule N) m
            = Some m'"
proof -
  define th0 :: "'a bb_thread" where "th0 = \<lparr>t_pc = Start, t_current = 0, t_parent = 0,
              t_aabb = \<lparr>lower = (0, 0, 0), upper = (0, 0, 0)\<rparr>\<rparr>"
  have i0: "bb_inv N P lo up leaf t (replicate N th0) (m_flags m) (m_boxes m)"
    by (rule bb_inv_init[OF refl _ m(1,2)]) (simp add: th0_def)
  have t0: "tr_inv N t (replicate N th0) m"
    by (rule tr_inv_init[OF refl _ m(1,3,4)]) (simp add: th0_def)
  from run_sequential[OF v vi le_refl i0 t0] obtain ths' m' where
    r: "run_threads (sched_step (assign_bounding_boxes_step (int N) L R P lo up leaf))
              (sequential_schedule N) (replicate N th0, m) = Some (ths', m')"
    and ret: "\<forall>a < N. t_pc (ths' ! a) = Returned"
    and inv: "bb_inv N P lo up leaf t ths' (m_flags m') (m_boxes m')"
    unfolding sequential_schedule_def by blast
  have "length ths' = N" using inv by (simp add: bb_inv_def)
  then have "list_all (\<lambda>th. t_pc th = Returned) ths'" using ret by (simp add: list_all_length)
  then show ?thesis using r
    unfolding assign_bounding_boxes_kernel_def th0_def by simp
qed

text \<open>
  C1. On a valid topology with the flags zeroed at entry, the launch of the bottom-up kernel
  can complete (running the threads one after the other does), and whatever the interleaving
  of the threads' actions, once every thread has returned: the box of every internal node is
  the merge of the boxes of its two children, the box of every leaf is its input box, and
  every internal node has had exactly two atomic arrivals and exactly one store of its box,
  made by the thread that arrived second.
\<close>

theorem assign_bounding_boxes_internal_nodes:
  assumes "valid_bvh N L R P t" and "valid_inputs N lo up leaf"
    and "m_flags m = replicate (N - 1) 0" and "length (m_boxes m) = 2 * N - 1"
    and "m_arrivals m = []" and "m_stores m = []"
  shows "(\<exists>m'. assign_bounding_boxes_kernel (int N) L R P lo up leaf N (sequential_schedule N) m
            = Some m') \<and>
    (\<forall>sched m'. assign_bounding_boxes_kernel (int N) L R P lo up leaf N sched m = Some m' \<longrightarrow>
       (\<forall>i. 0 \<le> i \<and> i < int N - 1 \<longrightarrow>
          (\<exists>l r bl br. rd L i = Some l \<and> rd R i = Some r \<and>
             rd (m_boxes m') l = Some bl \<and> rd (m_boxes m') r = Some br \<and>
             rd (m_boxes m') i = Some (aabb_merge bl br)) \<and>
          (\<exists>x y. arrivals_at m' i = [x, y] \<and> stores_at m' i = [y])) \<and>
       (\<forall>a < N. rd (m_boxes m') (int N - 1 + int a) =
          Some \<lparr>lower = lo ! nat (leaf ! a), upper = up ! nat (leaf ! a)\<rparr>))"
proof (intro conjI allI impI)
  show "\<exists>m'. assign_bounding_boxes_kernel (int N) L R P lo up leaf N (sequential_schedule N) m
            = Some m'"
    by (rule kernel_completes[OF assms])
next
  fix sched m' i
  assume k: "assign_bounding_boxes_kernel (int N) L R P lo up leaf N sched m = Some m'"
    and i: "0 \<le> i \<and> i < int N - 1"
  note F = kernel_final[OF assms k]
  have vt: "valid_topology N L R t" using assms(1) by (simp add: valid_bvh_def)
  from valid_internal_subtree[OF vt] i obtain l r where n: "Nd i l r \<in> set (subtrees t)" by blast
  have enc: "encodes (int N - 1) L R (Nd i l r)" by (rule valid_bvh_encodes[OF assms(1) n])
  have lr: "l \<in> set (subtrees t)" "r \<in> set (subtrees t)" using subtree_children[OF n] by simp_all
  have rl: "0 \<le> root l" "root l < 2 * int N - 1"
    using valid_bvh_node_range[OF assms(1) lr(1) root_in_preorder] by simp_all
  have rr: "0 \<le> root r" "root r < 2 * int N - 1"
    using valid_bvh_node_range[OF assms(1) lr(2) root_in_preorder] by simp_all
  have "rd (m_boxes m') (root l) = Some (tbox N lo up leaf l)"
    using F(1) F(2)[OF lr(1)] rl by (simp add: rd_def)
  moreover have "rd (m_boxes m') (root r) = Some (tbox N lo up leaf r)"
    using F(1) F(2)[OF lr(2)] rr by (simp add: rd_def)
  moreover have "rd (m_boxes m') i = Some (aabb_merge (tbox N lo up leaf l) (tbox N lo up leaf r))"
    using F(1) F(2)[OF n] i by (simp add: rd_def)
  ultimately show "\<exists>l r bl br. rd L i = Some l \<and> rd R i = Some r \<and>
             rd (m_boxes m') l = Some bl \<and> rd (m_boxes m') r = Some br \<and>
             rd (m_boxes m') i = Some (aabb_merge bl br)"
    using enc by simp
  show "\<exists>x y. arrivals_at m' i = [x, y] \<and> stores_at m' i = [y]"
    using F(4) i by simp
next
  fix sched m' a
  assume k: "assign_bounding_boxes_kernel (int N) L R P lo up leaf N sched m = Some m'"
    and a: "a < N"
  note F = kernel_final[OF assms k]
  from F(2)[OF valid_bvh_leaf[OF assms(1) a]] F(1) a
  show "rd (m_boxes m') (int N - 1 + int a) =
          Some \<lparr>lower = lo ! nat (leaf ! a), upper = up ! nat (leaf ! a)\<rparr>"
    by (simp add: rd_def)
qed

theorem assign_bounding_boxes_internal_nodes_witness:
  "valid_bvh 3 [1, 3] [2, 4] [- 1, 0, 0, 1, 1] (Nd 0 (Nd 1 (Lf 3) (Lf 4)) (Lf 2)) \<and>
   valid_inputs 3 [(0, 0, 0), (2, 2, 2), (5, 5, 5)] [(1, 1, 1), (3, 3, 3), (6 :: int, 6, 6)]
     [2, 0, 1] \<and>
   (\<exists>m'. assign_bounding_boxes_kernel 3 [1, 3] [2, 4] [- 1, 0, 0, 1, 1]
        [(0, 0, 0), (2, 2, 2), (5, 5, 5)] [(1, 1, 1), (3, 3, 3), (6 :: int, 6, 6)] [2, 0, 1] 3
        [2, 1, 0, 2, 1, 1, 0, 1, 1, 1]
        \<lparr>m_flags = [0, 0], m_boxes = replicate 5 \<lparr>lower = (9, 9, 9), upper = (9, 9, 9)\<rparr>,
          m_arrivals = [], m_stores = []\<rparr> = Some m' \<and>
      rd (m_boxes m') 0 = Some (aabb_merge (m_boxes m' ! 1) (m_boxes m' ! 2)) \<and>
      rd (m_boxes m') 1 = Some (aabb_merge (m_boxes m' ! 3) (m_boxes m' ! 4)) \<and>
      m_boxes m' ! 0 = \<lparr>lower = (0, 0, 0), upper = (6, 6, 6)\<rparr> \<and>
      arrivals_at m' 1 = [2, 1] \<and> stores_at m' 1 = [1] \<and>
      arrivals_at m' 0 = [0, 1] \<and> stores_at m' 0 = [1])"
proof -
  let ?lo = "[(0, 0, 0), (2, 2, 2), (5 :: int, 5, 5)]"
  let ?up = "[(1, 1, 1), (3, 3, 3), (6 :: int, 6, 6)]"
  let ?m = "\<lparr>m_flags = [0, 0], m_boxes = replicate 5 \<lparr>lower = (9, 9, 9), upper = (9 :: int, 9, 9)\<rparr>,
          m_arrivals = [], m_stores = []\<rparr>"
  let ?k = "assign_bounding_boxes_kernel 3 [1, 3] [2, 4] [- 1, 0, 0, 1, 1] ?lo ?up [2, 0, 1] 3
        [2, 1, 0, 2, 1, 1, 0, 1, 1, 1] ?m"
  have v: "valid_bvh 3 [1, 3] [2, 4] [- 1, 0, 0, 1, 1] (Nd 0 (Nd 1 (Lf 3) (Lf 4)) (Lf 2))"
    by code_simp
  have vi: "valid_inputs 3 ?lo ?up [2, 0, 1]" by code_simp
  have f: "m_flags ?m = replicate (3 - 1) 0" by (simp add: numeral_2_eq_2)
  have b: "length (m_boxes ?m) = 2 * 3 - 1" by simp
  define m' :: "int bb_mem" where "m' = \<lparr>m_flags = [2, 2],
     m_boxes = [\<lparr>lower = (0, 0, 0), upper = (6, 6, 6)\<rparr>, \<lparr>lower = (0, 0, 0), upper = (3, 3, 3)\<rparr>,
                \<lparr>lower = (5, 5, 5), upper = (6, 6, 6)\<rparr>, \<lparr>lower = (0, 0, 0), upper = (1, 1, 1)\<rparr>,
                \<lparr>lower = (2, 2, 2), upper = (3, 3, 3)\<rparr>],
     m_arrivals = [(1, 2), (1, 1), (0, 0), (0, 1)],
     m_stores = [(4, 2), (3, 1), (2, 0), (1, 1), (0, 1)]\<rparr>"
  have k: "?k = Some m'" unfolding m'_def by code_simp
  have tr: "arrivals_at m' 1 = [2, 1]" "stores_at m' 1 = [1]"
      "arrivals_at m' 0 = [0, 1]" "stores_at m' 0 = [1]"
      "m_boxes m' ! 0 = \<lparr>lower = (0, 0, 0), upper = (6, 6, 6)\<rparr>"
    by (simp_all add: m'_def arrivals_at_def stores_at_def)
  from assign_bounding_boxes_internal_nodes[OF v vi f b, simplified] k
  have "\<forall>i. 0 \<le> i \<and> i < 2 \<longrightarrow>
          (\<exists>l r bl br. rd [1, 3] i = Some l \<and> rd [2, 4] i = Some r \<and>
             rd (m_boxes m') l = Some bl \<and> rd (m_boxes m') r = Some br \<and>
             rd (m_boxes m') i = Some (aabb_merge bl br))"
    by simp
  then have "(\<exists>l r bl br. rd [1, 3] 0 = Some l \<and> rd [2, 4] 0 = Some r \<and>
             rd (m_boxes m') l = Some bl \<and> rd (m_boxes m') r = Some br \<and>
             rd (m_boxes m') 0 = Some (aabb_merge bl br))"
     and "(\<exists>l r bl br. rd [1, 3] 1 = Some l \<and> rd [2, 4] 1 = Some r \<and>
             rd (m_boxes m') l = Some bl \<and> rd (m_boxes m') r = Some br \<and>
             rd (m_boxes m') 1 = Some (aabb_merge bl br))"
    by simp_all
  then have "rd (m_boxes m') 0 = Some (aabb_merge (m_boxes m' ! 1) (m_boxes m' ! 2))"
    "rd (m_boxes m') 1 = Some (aabb_merge (m_boxes m' ! 3) (m_boxes m' ! 4))"
    by (auto simp: rd_def split: if_splits)
  then show ?thesis using v vi k tr by simp
qed

subsection \<open>Constructor and refit\<close>

lemma refit_returns: "\<exists>r. refit sched self = Inr r"
  by (simp add: refit_def)

lemma rebuild_returns: "\<exists>r. rebuild env sched self = Inr r"
  using refit_returns by (auto simp: rebuild_def split: option.splits)

text \<open>
  C8. The constructor raises \<open>ValueError\<close> exactly when the two arrays differ in length, are on
  different devices, or are not on a CUDA device. The three checks come first: in that case the
  outcome is the error alone (no \<open>Bvh\<close> value), the same whatever the device would have
  computed (Morton codes, sort, thread schedule), since nothing was allocated or launched.
\<close>

theorem Bvh_init_invalid_argument:
  "((\<exists>msg. Bvh_init env sched lower_bounds upper_bounds = Inl (ValueError msg)) \<longleftrightarrow>
      (length (arr_data lower_bounds) \<noteq> length (arr_data upper_bounds) \<or>
       arr_device lower_bounds \<noteq> arr_device upper_bounds \<or>
       \<not> is_cuda (arr_device lower_bounds))) \<and>
   ((length (arr_data lower_bounds) \<noteq> length (arr_data upper_bounds) \<or>
       arr_device lower_bounds \<noteq> arr_device upper_bounds \<or>
       \<not> is_cuda (arr_device lower_bounds)) \<longrightarrow>
      Bvh_init env' sched' lower_bounds upper_bounds = Bvh_init env sched lower_bounds upper_bounds)"
proof -
  obtain r where r: "rebuild env sched (Bvh_alloc lower_bounds upper_bounds) = Inr r"
    using rebuild_returns by blast
  show ?thesis by (simp add: Bvh_init_def r)
qed

theorem Bvh_init_invalid_argument_witness:
  "Bvh_init \<lparr>env_morton_codes = (\<lambda>lo up. []), env_radix_sort_pairs = (\<lambda>ks vs n. (ks, vs))\<rparr> []
     \<lparr>arr_data = [(0, 0, 0 :: int)], arr_device = Cpu\<rparr>
     \<lparr>arr_data = [(1, 1, 1)], arr_device = Cpu\<rparr> = Inl (ValueError ''Bvh requires a CUDA device'') \<and>
   Bvh_init \<lparr>env_morton_codes = (\<lambda>lo up. []), env_radix_sort_pairs = (\<lambda>ks vs n. (ks, vs))\<rparr> []
     \<lparr>arr_data = [(0, 0, 0 :: int)], arr_device = Cuda 0\<rparr>
     \<lparr>arr_data = [], arr_device = Cuda 0\<rparr> =
     Inl (ValueError ''lower_bounds and upper_bounds must have the same length'')"
proof -
  let ?env = "\<lparr>env_morton_codes = (\<lambda>lo up. []), env_radix_sort_pairs = (\<lambda>ks vs n. (ks, vs))\<rparr>
     :: int device_env"
  have a: "\<exists>msg. Bvh_init ?env [] \<lparr>arr_data = [(0, 0, 0 :: int)], arr_device = Cpu\<rparr>
     \<lparr>arr_data = [(1, 1, 1)], arr_device = Cpu\<rparr> = Inl (ValueError msg)"
    using Bvh_init_invalid_argument[of ?env "[]" "\<lparr>arr_data = [(0, 0, 0 :: int)], arr_device = Cpu\<rparr>"
      "\<lparr>arr_data = [(1, 1, 1)], arr_device = Cpu\<rparr>"] by simp
  have b: "\<exists>msg. Bvh_init ?env [] \<lparr>arr_data = [(0, 0, 0 :: int)], arr_device = Cuda 0\<rparr>
     \<lparr>arr_data = [], arr_device = Cuda 0\<rparr> = Inl (ValueError msg)"
    using Bvh_init_invalid_argument[of ?env "[]" "\<lparr>arr_data = [(0, 0, 0 :: int)], arr_device = Cuda 0\<rparr>"
      "\<lparr>arr_data = [], arr_device = Cuda 0\<rparr>"] by simp
  from a b show ?thesis by (simp add: Bvh_init_def)
qed







subsection \<open>Refit and build\<close>







lemma refit_boxes:
  assumes nl: "self_num_leaves self = int N"
    and v: "valid_bvh N (self_left_nodes self) (self_right_nodes self) (self_parent_nodes self) t"
    and vi: "valid_inputs N (self_lower_bounds self) (self_upper_bounds self) (self_leaf_indices self)"
    and lf: "length (self_flags self) = N - 1" and lb: "length (self_bound_boxes self) = 2 * N - 1"
    and r: "refit sched self = Inr (Some s')"
  shows "length (self_bound_boxes s') = 2 * N - 1"
    and "\<And>u. u \<in> set (subtrees t) \<Longrightarrow> self_bound_boxes s' ! nat (root u) =
      tbox N (self_lower_bounds self) (self_upper_bounds self) (self_leaf_indices self) u"
proof -
  have N: "1 \<le> N" using v by (simp add: valid_bvh_def valid_topology_def)
  let ?m0 = "\<lparr>m_flags = replicate (N - 1) 0, m_boxes = self_bound_boxes self,
              m_arrivals = [], m_stores = []\<rparr>"
  from r N obtain m nodes where
    k: "assign_bounding_boxes_kernel (int N) (self_left_nodes self)
               (self_right_nodes self) (self_parent_nodes self) (self_lower_bounds self)
               (self_upper_bounds self) (self_leaf_indices self) N sched ?m0 = Some m"
    and s': "s' = self\<lparr>self_flags := m_flags m, self_bound_boxes := m_boxes m,
                       self_bvh_nodes := nodes\<rparr>"
    by (auto simp: refit_def bind_eq_Some_conv Let_def nl lf)
  have m0: "m_flags ?m0 = replicate (N - 1) 0" "length (m_boxes ?m0) = 2 * N - 1"
    "m_arrivals ?m0 = []" "m_stores ?m0 = []" using lb by simp_all
  note F = kernel_final[OF v vi m0 k]
  show "length (self_bound_boxes s') = 2 * N - 1" using F(1) s' by simp
  show "self_bound_boxes s' ! nat (root u) =
      tbox N (self_lower_bounds self) (self_upper_bounds self) (self_leaf_indices self) u"
    if "u \<in> set (subtrees t)" for u
    using F(2)[OF that] s' by simp
qed








subsection \<open>The root box\<close>









end
